theory Spec2Isabelle
  imports Main
begin

section \<open>Data model of the chest registry (storage/chestStore.ts)\<close>

text \<open>
  Block coordinates. \<open>StoredPosition\<close> and the \<open>Vec3\<close> of the classifier carry the same
  three numeric fields; every caller floors them before use, so they are integers here.
\<close>

datatype Vec3 = Vec3 (vx: int) (vy: int) (vz: int)

datatype ContainerType =
    single_chest | double_chest | trapped_chest | barrel | ender_chest | shulker_box | container

text \<open>
  \<open>ChestRecord\<close>. The optional booleans of the interface (\<open>hidden?\<close>, \<open>forbidden?\<close>,
  \<open>destroyed?\<close>) and the optional \<open>notes?\<close> are options: \<open>None\<close> is the absent field,
  which JavaScript reads as \<open>undefined\<close>.
\<close>

record ChestRecord =
  chest_id :: string
  label :: string
  chest_notes :: "string option"
  hidden :: "bool option"
  forbidden :: "bool option"
  ctype :: ContainerType
  positions :: "Vec3 list"
  primary :: Vec3
  dimension :: string
  createdAt :: string
  updatedAt :: string
  destroyed :: "bool option"

text \<open>Truthiness of an optional boolean: \<open>undefined\<close> and \<open>false\<close> are falsy.\<close>

fun truthy :: "bool option \<Rightarrow> bool" where
  "truthy None = False"
| "truthy (Some b) = b"

text \<open>\<open>RootStore\<close>: the worlds are a dictionary from world key to the list of records.\<close>

record RootStore =
  version :: int
  worlds :: "string \<rightharpoonup> ChestRecord list"

definition initial_store :: RootStore where
  "initial_store = \<lparr>version = 1, worlds = Map.empty\<rparr>"

subsection \<open>Strings\<close>

text \<open>
  \<open>String.prototype.trim\<close> and \<open>toLowerCase\<close> on the ASCII range: the white space removed
  is space, tab, line feed, vertical tab, form feed and carriage return, and the letters
  \<open>A\<close> to \<open>Z\<close> are mapped to \<open>a\<close> to \<open>z\<close>.
\<close>

definition isSpace :: "char \<Rightarrow> bool" where
  "isSpace c = (c \<in> set [CHR 0x20, CHR 0x09, CHR 0x0A, CHR 0x0B, CHR 0x0C, CHR 0x0D])"

definition trim :: "string \<Rightarrow> string" where
  "trim s = rev (dropWhile isSpace (rev (dropWhile isSpace s)))"

definition toLowerCase_char :: "char \<Rightarrow> char" where
  "toLowerCase_char c =
     (case map_of (zip ''ABCDEFGHIJKLMNOPQRSTUVWXYZ'' ''abcdefghijklmnopqrstuvwxyz'') c of
        Some d \<Rightarrow> d
      | None \<Rightarrow> c)"

definition toLowerCase :: "string \<Rightarrow> string" where
  "toLowerCase s = map toLowerCase_char s"

definition normalizeLabel :: "string \<Rightarrow> string" where
  "normalizeLabel l = trim l"

definition posEquals :: "Vec3 \<Rightarrow> Vec3 \<Rightarrow> bool" where
  "posEquals a b = (vx a = vx b \<and> vy a = vy b \<and> vz a = vz b)"

subsection \<open>Store operations\<close>

text \<open>
  \<open>ensureWorld\<close> creates the empty world on first use and returns its record list; the
  store is passed explicitly and returned updated.
\<close>

definition ensureWorld :: "RootStore \<Rightarrow> string \<Rightarrow> ChestRecord list \<times> RootStore" where
  "ensureWorld st worldKey =
     (case worlds st worldKey of
        None \<Rightarrow> ([], st\<lparr>worlds := (worlds st)(worldKey \<mapsto> [])\<rparr>)
      | Some cs \<Rightarrow> (cs, st))"




text \<open>
  \<open>Array.prototype.findIndex\<close>, used here where the source keeps a reference to the element
  found by \<open>find\<close> and then assigns to its fields: the record at that index is replaced.
\<close>

fun findIndex :: "('a \<Rightarrow> bool) \<Rightarrow> 'a list \<Rightarrow> nat option" where
  "findIndex P [] = None"
| "findIndex P (x # xs) = (if P x then Some 0 else map_option Suc (findIndex P xs))"

text \<open>
  \<open>upsertChest\<close>. The clock (\<open>new Date().toISOString()\<close>) and the generated identifier
  (\<open>chest-<Date.now()>-<random>\<close>) are inputs \<open>now\<close> and \<open>generated\<close>. An empty
  \<open>record.id\<close> is falsy, so \<open>record.id || generated\<close> takes the generated one only then.
  The two branches are written as functions of their own: the assignments to the fields
  of the record found, and the object literal of the new record.
\<close>

definition assignExisting :: "ChestRecord \<Rightarrow> ChestRecord \<Rightarrow> string \<Rightarrow> ChestRecord" where
  "assignExisting existing record now =
     existing\<lparr>
       label := normalizeLabel (label record),
       chest_notes := chest_notes record,
       hidden := hidden record,
       forbidden := Some (truthy (forbidden record)),
       ctype := ctype record,
       positions := positions record,
       primary := primary record,
       dimension := dimension record,
       updatedAt := now,
       destroyed := Some False\<rparr>"

definition newRec :: "ChestRecord \<Rightarrow> string \<Rightarrow> string \<Rightarrow> ChestRecord" where
  "newRec record now generated =
     record\<lparr>
       chest_id := (if chest_id record = [] then generated else chest_id record),
       createdAt := now,
       updatedAt := now,
       destroyed := Some False,
       forbidden := Some (truthy (forbidden record))\<rparr>"

definition upsertChest ::
  "RootStore \<Rightarrow> string \<Rightarrow> ChestRecord \<Rightarrow> string \<Rightarrow> string \<Rightarrow> ChestRecord \<times> RootStore" where
  "upsertChest st worldKey record now generated =
     (let (chests, st') = ensureWorld st worldKey;
          norm = toLowerCase (normalizeLabel (label record));
          existing = (case findIndex (\<lambda>c. toLowerCase (label c) = norm) chests of
                        Some i \<Rightarrow> Some i
                      | None \<Rightarrow> findIndex (\<lambda>c. posEquals (primary c) (primary record)) chests)
      in case existing of
           Some i \<Rightarrow>
             (let e = assignExisting (chests ! i) record now
              in (e, st'\<lparr>worlds := (worlds st')(worldKey \<mapsto> chests[i := e])\<rparr>))
         | None \<Rightarrow>
             (let n = newRec record now generated
              in (n, st'\<lparr>worlds := (worlds st')(worldKey \<mapsto> chests @ [n])\<rparr>)))"

section \<open>Container classification and access (skills/library/chestUtils.ts)\<close>

datatype error =
    NoBlockLoadedAtSpecified      \<comment> \<open>'No block loaded at the specified position'\<close>
  | NotSupportedContainer string  \<comment> \<open>'Block at position is not a supported container: <name>'\<close>
  | AccessDeniedForbidden         \<comment> \<open>'Access denied: This chest is forbidden.'\<close>
  | NoBlockLoaded                 \<comment> \<open>'No block loaded at position'\<close>
  | NavigationFailed              \<comment> \<open>'Failed to navigate to chest: ...'\<close>
  | OpenFailed                    \<comment> \<open>\<open>bot.lookAt\<close> or \<open>bot.openContainer\<close> rejected\<close>

record DetectedContainer =
  det_type :: ContainerType
  det_positions :: "Vec3 list"
  det_primary :: Vec3

definition offset :: "Vec3 \<Rightarrow> int \<Rightarrow> int \<Rightarrow> int \<Rightarrow> Vec3" where
  "offset p dx dy dz = Vec3 (vx p + dx) (vy p + dy) (vz p + dz)"

definition endsWith :: "string \<Rightarrow> string \<Rightarrow> bool" where
  "endsWith s t = (length t \<le> length s \<and> drop (length s - length t) s = t)"

definition isContainerBlockName :: "string \<Rightarrow> bool" where
  "isContainerBlockName name =
     (if name = [] then False
      else name = ''chest'' \<or> name = ''trapped_chest'' \<or> name = ''barrel''
           \<or> name = ''ender_chest'' \<or> endsWith name ''_shulker_box'' \<or> name = ''shulker_box'')"

text \<open>
  The comparator of the sort, \<open>(a.x - b.x) || (a.y - b.y) || (a.z - b.z)\<close>: zero is falsy,
  so the first non-zero difference decides.
\<close>

definition comparePos :: "Vec3 \<Rightarrow> Vec3 \<Rightarrow> int" where
  "comparePos a b =
     (if vx a - vx b \<noteq> 0 then vx a - vx b
      else if vy a - vy b \<noteq> 0 then vy a - vy b
      else vz a - vz b)"

text \<open>\<open>Array.prototype.sort\<close> with a comparator: a stable insertion sort.\<close>

fun insertBy :: "('a \<Rightarrow> 'a \<Rightarrow> int) \<Rightarrow> 'a \<Rightarrow> 'a list \<Rightarrow> 'a list" where
  "insertBy cmp a [] = [a]"
| "insertBy cmp a (b # bs) = (if cmp a b \<le> 0 then a # b # bs else b # insertBy cmp a bs)"

definition sortBy :: "('a \<Rightarrow> 'a \<Rightarrow> int) \<Rightarrow> 'a list \<Rightarrow> 'a list" where
  "sortBy cmp as = foldr (insertBy cmp) as []"

text \<open>
  The world as the classifier sees it: \<open>bot.blockAt\<close> gives the name of the block at a
  coordinate, or nothing where no block is loaded.
\<close>

definition detectContainerAt :: "(Vec3 \<Rightarrow> string option) \<Rightarrow> Vec3 \<Rightarrow> error + DetectedContainer" where
  "detectContainerAt blockAt pos =
     (case blockAt pos of
        None \<Rightarrow> Inl NoBlockLoadedAtSpecified
      | Some name \<Rightarrow>
          if name = ''chest'' \<or> name = ''trapped_chest'' then
            (let adjPositions = [offset pos 1 0 0, offset pos (- 1) 0 0,
                                 offset pos 0 0 1, offset pos 0 0 (- 1)]
             in case find (\<lambda>p. blockAt p = Some name) adjPositions of
                  Some match \<Rightarrow>
                    (let sorted = sortBy comparePos [pos, match]
                     in Inr \<lparr>det_type = (if name = ''chest'' then double_chest else trapped_chest),
                             det_positions = sorted,
                             det_primary = sorted ! 0\<rparr>)
                | None \<Rightarrow>
                    Inr \<lparr>det_type = (if name = ''chest'' then single_chest else trapped_chest),
                         det_positions = [pos],
                         det_primary = pos\<rparr>)
          else if name = ''barrel'' then
            Inr \<lparr>det_type = barrel, det_positions = [pos], det_primary = pos\<rparr>
          else if name = ''ender_chest'' then
            Inr \<lparr>det_type = ender_chest, det_positions = [pos], det_primary = pos\<rparr>
          else if endsWith name ''_shulker_box'' \<or> name = ''shulker_box'' then
            Inr \<lparr>det_type = shulker_box, det_positions = [pos], det_primary = pos\<rparr>
          else if isContainerBlockName name then
            Inr \<lparr>det_type = container, det_positions = [pos], det_primary = pos\<rparr>
          else Inl (NotSupportedContainer name))"

text \<open>
  The bot as \<open>openContainerAt\<close> uses it: the block lookup, whether the pathfinder reaches a
  target (\<open>navigateNear\<close> throws otherwise), and \<open>openContainer\<close> on the block at a
  coordinate, which yields a window or rejects. The world key is \<open>getWorldKey(bot)\<close>, a
  string built from the connection, taken as an input.
\<close>

record 'w Bot =
  blockAt :: "Vec3 \<Rightarrow> string option"
  navigateNear :: "Vec3 \<Rightarrow> bool"
  openContainer :: "Vec3 \<Rightarrow> 'w option"


subsection \<open>Resolving a chest reference (skills/verified/deposit_items.ts, withdraw_items)\<close>




subsection \<open>Slot accounting\<close>

record Item =
  item_name :: string
  item_count :: int
  item_type :: int

text \<open>
  A window: the flat slot array (\<open>None\<close> is an empty slot) and the two optional numeric
  fields; \<open>None\<close> there means that \<open>typeof\<close> the field is not \<open>'number'\<close>.
\<close>

record Window =
  slots :: "Item option list"
  window_inventoryStart :: "int option"
  window_inventoryEnd :: "int option"

record SlotInfo =
  containerStart :: int
  containerEnd :: int
  inventoryStart :: int
  inventoryEnd :: int
  containerSize :: int

definition getContainerSlotInfo :: "Window \<Rightarrow> SlotInfo" where
  "getContainerSlotInfo window =
     (let totalSlots = int (length (slots window));
          invStart = (case window_inventoryStart window of
                        Some n \<Rightarrow> n | None \<Rightarrow> max (totalSlots - 36) 0);
          invEnd = (case window_inventoryEnd window of Some n \<Rightarrow> n | None \<Rightarrow> totalSlots);
          cStart = 0;
          cEnd = invStart
      in \<lparr>containerStart = cStart, containerEnd = cEnd, inventoryStart = invStart,
          inventoryEnd = invEnd, containerSize = cEnd - cStart\<rparr>)"

text \<open>
  Reading \<open>window.slots[i]\<close>: outside the array JavaScript gives \<open>undefined\<close>, which the
  loops treat like an empty slot.
\<close>

definition slotAt :: "Item option list \<Rightarrow> int \<Rightarrow> Item option" where
  "slotAt ss i = (if 0 \<le> i \<and> i < int (length ss) then ss ! nat i else None)"

text \<open>
  The summary object keeps its keys in insertion order and \<open>Object.entries\<close> lists them
  so; \<open>summary[key] = (summary[key] || 0) + it.count\<close> starts a missing key at zero.
\<close>

fun addCount :: "string \<Rightarrow> int \<Rightarrow> (string \<times> int) list \<Rightarrow> (string \<times> int) list" where
  "addCount k n [] = [(k, n)]"
| "addCount k n ((k', v) # kvs) =
     (if k = k' then (k', v + n) # kvs else (k', v) # addCount k n kvs)"

text \<open>
  The two loops \<open>for (let i = containerStart; i < containerEnd; i++)\<close>, over an arbitrary
  slot reader so that what they read can be stated.
\<close>

definition summarizeLoop ::
  "(int \<Rightarrow> Item option) \<Rightarrow> int \<Rightarrow> int \<Rightarrow> (string \<times> int) list" where
  "summarizeLoop rd cs ce =
     foldl (\<lambda>summary i. case rd i of
                           None \<Rightarrow> summary
                         | Some it \<Rightarrow> addCount (item_name it) (item_count it) summary)
           [] [cs..ce - 1]"

definition countFreeLoop :: "(int \<Rightarrow> Item option) \<Rightarrow> int \<Rightarrow> int \<Rightarrow> int" where
  "countFreeLoop rd cs ce =
     foldl (\<lambda>free i. if rd i = None then free + 1 else free) 0 [cs..ce - 1]"

definition summarizeContainerContents :: "Window \<Rightarrow> (string \<times> int) list" where
  "summarizeContainerContents window =
     (let info = getContainerSlotInfo window
      in summarizeLoop (slotAt (slots window)) (containerStart info) (containerEnd info))"

definition countFreeContainerSlots :: "Window \<Rightarrow> int" where
  "countFreeContainerSlots window =
     (let info = getContainerSlotInfo window
      in countFreeLoop (slotAt (slots window)) (containerStart info) (containerEnd info))"

subsection \<open>Transfer helpers (deposit_items.ts, withdraw_items)\<close>






subsection \<open>Notions used in the statements\<close>

text \<open>The records of a world as the store operations see them.\<close>

definition worldChests :: "RootStore \<Rightarrow> string \<Rightarrow> ChestRecord list" where
  "worldChests st worldKey = fst (ensureWorld st worldKey)"


text \<open>The four horizontal neighbours, in the order \<open>detectContainerAt\<close> probes them.\<close>
definition adjacent :: "Vec3 \<Rightarrow> Vec3 list" where
  "adjacent pos = [offset pos 1 0 0, offset pos (- 1) 0 0, offset pos 0 0 1, offset pos 0 0 (- 1)]"

text \<open>Coordinates ordered by x, then y, then z.\<close>
definition lexLess :: "Vec3 \<Rightarrow> Vec3 \<Rightarrow> bool" where
  "lexLess a b = (vx a < vx b \<or> (vx a = vx b \<and> (vy a < vy b \<or> (vy a = vy b \<and> vz a < vz b))))"





text \<open>
  The resolution order of \<open>upsertChest\<close> in the words of its description: the first record
  whose label matches case-insensitively, else the first whose primary coordinate is
  the same.
\<close>
definition resolveExisting :: "ChestRecord list \<Rightarrow> ChestRecord \<Rightarrow> nat option" where
  "resolveExisting cs record =
     (case findIndex (\<lambda>c. toLowerCase (label c) = toLowerCase (trim (label record))) cs of
        Some i \<Rightarrow> Some i
      | None \<Rightarrow> findIndex (\<lambda>c. primary c = primary record) cs)"

text \<open>How many records of a list carry a label, compared as \<open>upsertChest\<close> compares.\<close>
definition labelCount :: "string \<Rightarrow> ChestRecord list \<Rightarrow> nat" where
  "labelCount l cs =
     length (filter (\<lambda>c. toLowerCase (label c) = toLowerCase (trim l)) cs)"

text \<open>The fields \<open>upsertChest\<close> assigns to the record it found.\<close>
definition overwritten :: "ChestRecord \<Rightarrow> ChestRecord \<Rightarrow> string \<Rightarrow> ChestRecord \<Rightarrow> bool" where
  "overwritten old record now r =
     (label r = trim (label record) \<and> chest_notes r = chest_notes record
      \<and> hidden r = hidden record \<and> forbidden r = Some (truthy (forbidden record))
      \<and> ctype r = ctype record \<and> positions r = positions record
      \<and> primary r = primary record \<and> dimension r = dimension record
      \<and> updatedAt r = now \<and> destroyed r = Some False
      \<and> chest_id r = chest_id old \<and> createdAt r = createdAt old)"

section \<open>The keyed mutex (skills/library/mutex.ts)\<close>

text \<open>
  \<open>runExclusive\<close> is an async function over a module-level map from lock key to promise.
  Its calls interleave on one thread, suspended at \<open>await prev\<close> and at \<open>await fn()\<close>. The
  model is a transition system: the state holds the map, the promises allocated so far (a
  promise is identified by its index, so that \<open>===\<close> on promises is equality of indices)
  and the calls made so far; an event is one uninterrupted piece of execution.
\<close>

datatype pstate = Pending | Fulfilled | Rejected string

datatype pkind =
    Resolved        \<comment> \<open>\<open>Promise.resolve()\<close>\<close>
  | Executor        \<comment> \<open>\<open>new Promise(res => { resolveNext = res; })\<close>\<close>
  | Then nat nat    \<comment> \<open>\<open>prev.then(() => next)\<close>, with the indices of \<open>prev\<close> and \<open>next\<close>\<close>

record promise =
  kind :: pkind
  settled :: pstate

datatype 'a outcome = Returned 'a | Threw string

datatype 'a phase = AwaitingPrev | Running | Done "'a outcome"

text \<open>One call of \<open>runExclusive\<close>: its local constants and how far it has got.\<close>

record 'a invocation =
  lockKey :: string
  prevId :: nat
  nextId :: nat
  phase :: "'a phase"

record 'a mutex =
  locks :: "string \<rightharpoonup> nat"
  heap :: "promise list"
  calls :: "'a invocation list"

definition initial :: "'a mutex" where
  "initial = \<lparr>locks = Map.empty, heap = [], calls = []\<rparr>"

text \<open>
  \<open>`${bot.username || 'bot'}:${key}`\<close>: an absent or empty username is falsy.
\<close>

definition lockKeyOf :: "string option \<Rightarrow> string \<Rightarrow> string" where
  "lockKeyOf username key =
     (case username of None \<Rightarrow> ''bot'' | Some u \<Rightarrow> if u = [] then ''bot'' else u) @ '':'' @ key"

text \<open>
  The synchronous start of a call, up to \<open>await prev\<close>: \<open>prev\<close> is the promise stored under
  the lock key or a fresh resolved one, \<open>next\<close> is a fresh pending promise, and the promise
  returned by \<open>prev.then(() => next)\<close>, a third object, is stored under the lock key.
\<close>

definition call :: "string option \<Rightarrow> string \<Rightarrow> 'a mutex \<Rightarrow> 'a mutex" where
  "call username key s =
     (let k = lockKeyOf username key;
          (prev, h1) = (case locks s k of
                          Some p \<Rightarrow> (p, heap s)
                        | None \<Rightarrow> (length (heap s),
                                   heap s @ [\<lparr>kind = Resolved, settled = Fulfilled\<rparr>]));
          nxt = length h1;
          h2 = h1 @ [\<lparr>kind = Executor, settled = Pending\<rparr>];
          chained = length h2;
          h3 = h2 @ [\<lparr>kind = Then prev nxt, settled = Pending\<rparr>]
      in s\<lparr>locks := (locks s)(k \<mapsto> chained),
           heap := h3,
           calls := calls s @ [\<lparr>lockKey = k, prevId = prev, nextId = nxt, phase = AwaitingPrev\<rparr>]\<rparr>)"

text \<open>\<open>resolveNext(undefined)\<close>: fulfils the promise if it is still pending.\<close>

definition resolveNext :: "nat \<Rightarrow> promise list \<Rightarrow> promise list" where
  "resolveNext p h =
     (if p < length h \<and> settled (h ! p) = Pending then h[p := (h ! p)\<lparr>settled := Fulfilled\<rparr>]
      else h)"

text \<open>
  The end of a call, the same after \<open>return result\<close> and after \<open>throw err\<close>:
  \<open>resolveNext(undefined)\<close>, then the \<open>finally\<close> block, which deletes the entry of the lock
  key if it is (identical to) \<open>next\<close>; the call's promise settles with the outcome.
\<close>

definition leave :: "nat \<Rightarrow> 'a outcome \<Rightarrow> 'a mutex \<Rightarrow> 'a mutex" where
  "leave n out s =
     (let c = calls s ! n
      in s\<lparr>locks := (if locks s (lockKey c) = Some (nextId c) then (locks s)(lockKey c := None)
                     else locks s),
           heap := resolveNext (nextId c) (heap s),
           calls := (calls s)[n := c\<lparr>phase := Done out\<rparr>]\<rparr>)"

text \<open>
  The continuation of \<open>await prev\<close> in call \<open>n\<close>, possible once \<open>prev\<close> has settled: when
  fulfilled, \<open>fn()\<close> is called; when rejected, the \<open>catch\<close> block runs with the reason.
\<close>

definition resume :: "nat \<Rightarrow> 'a mutex \<Rightarrow> 'a mutex option" where
  "resume n s =
     (if n < length (calls s) \<and> phase (calls s ! n) = AwaitingPrev
         \<and> prevId (calls s ! n) < length (heap s) then
        (case settled (heap s ! prevId (calls s ! n)) of
           Pending \<Rightarrow> None
         | Fulfilled \<Rightarrow> Some (s\<lparr>calls := (calls s)[n := (calls s ! n)\<lparr>phase := Running\<rparr>]\<rparr>)
         | Rejected e \<Rightarrow> Some (leave n (Threw e) s))
      else None)"

text \<open>The promise of \<open>fn()\<close> in call \<open>n\<close> settles: with a value, or with an error.\<close>

definition finish :: "nat \<Rightarrow> 'a outcome \<Rightarrow> 'a mutex \<Rightarrow> 'a mutex option" where
  "finish n out s =
     (if n < length (calls s) \<and> phase (calls s ! n) = Running then Some (leave n out s)
      else None)"

text \<open>
  A promise made by \<open>prev.then(() => next)\<close> settles: rejected as \<open>prev\<close> is (there is no
  rejection handler), or, once \<open>prev\<close> is fulfilled and the callback has returned \<open>next\<close>,
  as \<open>next\<close> is.
\<close>

definition settle :: "nat \<Rightarrow> 'a mutex \<Rightarrow> 'a mutex option" where
  "settle p s =
     (if p < length (heap s) \<and> settled (heap s ! p) = Pending then
        (case kind (heap s ! p) of
           Then a b \<Rightarrow>
             (if a < length (heap s) \<and> b < length (heap s) then
                (case settled (heap s ! a) of
                   Pending \<Rightarrow> None
                 | Rejected e \<Rightarrow> Some (s\<lparr>heap := (heap s)[p := (heap s ! p)\<lparr>settled := Rejected e\<rparr>]\<rparr>)
                 | Fulfilled \<Rightarrow>
                     (case settled (heap s ! b) of
                        Pending \<Rightarrow> None
                      | r \<Rightarrow> Some (s\<lparr>heap := (heap s)[p := (heap s ! p)\<lparr>settled := r\<rparr>]\<rparr>)))
              else None)
         | _ \<Rightarrow> None)
      else None)"

datatype 'a event =
    Call "string option" string
  | Resume nat
  | Finish nat "'a outcome"
  | Settle nat

fun step :: "'a event \<Rightarrow> 'a mutex \<Rightarrow> 'a mutex option" where
  "step (Call username key) s = Some (call username key s)"
| "step (Resume n) s = resume n s"
| "step (Finish n out) s = finish n out s"
| "step (Settle p) s = settle p s"

fun run :: "'a event list \<Rightarrow> 'a mutex \<Rightarrow> 'a mutex option" where
  "run [] s = Some s"
| "run (e # es) s = (case step e s of None \<Rightarrow> None | Some s' \<Rightarrow> run es s')"

fun finished :: "'a phase \<Rightarrow> bool" where
  "finished (Done out) = True"
| "finished ph = False"

text \<open>
  An execution is a list of events from the initial state. The events can come in any
  order in which each is possible: the scheduling of the event loop is left open, and a
  property of all executions holds of the one that takes place. \<open>submitted\<close> lists the
  lock keys of the calls of an execution in the order of their submission.
\<close>

fun submitted :: "'a event list \<Rightarrow> string list" where
  "submitted [] = []"
| "submitted (Call username key # es) = lockKeyOf username key # submitted es"
| "submitted (e # es) = submitted es"

subsection \<open>Notions used in the statements about the mutex\<close>

text \<open>The prefix of the lock key: the username, or \<open>bot\<close> when it is absent or empty.\<close>
definition effectiveName :: "string option \<Rightarrow> string" where
  "effectiveName username = (case username of None \<Rightarrow> ''bot'' | Some u \<Rightarrow> if u = [] then ''bot'' else u)"

text \<open>
  What holds of every state the system reaches: the promises of a call exist
  (\<open>W_bounds\<close>); the promise stored under a lock key is the one made by \<open>then\<close> in the last
  call with that key (\<open>W_locks\<close>), and a key without entry has had no call
  (\<open>W_nolock\<close>); \<open>next\<close> of a call was made by the executor and is fulfilled exactly when
  the call is over (\<open>W_next\<close>), and no two calls share it (\<open>W_inj\<close>); a promise made by
  \<open>then\<close> is younger than the two it depends on and is fulfilled only after them
  (\<open>W_then\<close>); no promise is rejected (\<open>W_norej\<close>); a promise made by
  \<open>Promise.resolve()\<close> is fulfilled (\<open>W_resolved\<close>); \<open>prev\<close> of a call is such a promise if
  the call is the first with its key, and otherwise the promise made by \<open>then\<close> in the call
  before it with that key (\<open>W_prev\<close>); a call that has been resumed has \<open>prev\<close> fulfilled
  (\<open>W_started\<close>).
\<close>

definition W_bounds :: "'a mutex \<Rightarrow> bool" where
  "W_bounds s = (\<forall>n < length (calls s).
      prevId (calls s ! n) < length (heap s) \<and> nextId (calls s ! n) < length (heap s))"

definition W_locks :: "'a mutex \<Rightarrow> bool" where
  "W_locks s = (\<forall>k p. locks s k = Some p \<longrightarrow>
      p < length (heap s)
      \<and> (\<exists>n < length (calls s).
            kind (heap s ! p) = Then (prevId (calls s ! n)) (nextId (calls s ! n))
            \<and> lockKey (calls s ! n) = k
            \<and> (\<forall>m < length (calls s). lockKey (calls s ! m) = k \<longrightarrow> m \<le> n)))"

definition W_nolock :: "'a mutex \<Rightarrow> bool" where
  "W_nolock s = (\<forall>k. locks s k = None \<longrightarrow> (\<forall>n < length (calls s). lockKey (calls s ! n) \<noteq> k))"

definition W_next :: "'a mutex \<Rightarrow> bool" where
  "W_next s = (\<forall>n < length (calls s).
      kind (heap s ! nextId (calls s ! n)) = Executor
      \<and> settled (heap s ! nextId (calls s ! n))
          = (if finished (phase (calls s ! n)) then Fulfilled else Pending))"

definition W_inj :: "'a mutex \<Rightarrow> bool" where
  "W_inj s = (\<forall>m < length (calls s). \<forall>n < length (calls s).
      nextId (calls s ! m) = nextId (calls s ! n) \<longrightarrow> m = n)"

definition W_then :: "'a mutex \<Rightarrow> bool" where
  "W_then s = (\<forall>p < length (heap s). \<forall>a b. kind (heap s ! p) = Then a b \<longrightarrow>
      a < p \<and> b < p
      \<and> (settled (heap s ! p) = Fulfilled
           \<longrightarrow> settled (heap s ! a) = Fulfilled \<and> settled (heap s ! b) = Fulfilled))"

definition W_norej :: "'a mutex \<Rightarrow> bool" where
  "W_norej s = (\<forall>p < length (heap s). \<forall>e. settled (heap s ! p) \<noteq> Rejected e)"

definition W_resolved :: "'a mutex \<Rightarrow> bool" where
  "W_resolved s = (\<forall>p < length (heap s). kind (heap s ! p) = Resolved
      \<longrightarrow> settled (heap s ! p) = Fulfilled)"

definition W_prev :: "'a mutex \<Rightarrow> bool" where
  "W_prev s = (\<forall>n < length (calls s).
      (kind (heap s ! prevId (calls s ! n)) = Resolved
         \<and> (\<forall>m < n. lockKey (calls s ! m) \<noteq> lockKey (calls s ! n)))
      \<or> (\<exists>m < n. lockKey (calls s ! m) = lockKey (calls s ! n)
            \<and> kind (heap s ! prevId (calls s ! n))
                = Then (prevId (calls s ! m)) (nextId (calls s ! m))
            \<and> (\<forall>m' < n. lockKey (calls s ! m') = lockKey (calls s ! n) \<longrightarrow> m' \<le> m)))"

definition W_started :: "'a mutex \<Rightarrow> bool" where
  "W_started s = (\<forall>n < length (calls s). phase (calls s ! n) \<noteq> AwaitingPrev
      \<longrightarrow> settled (heap s ! prevId (calls s ! n)) = Fulfilled)"

definition wellformed :: "'a mutex \<Rightarrow> bool" where
  "wellformed s = (W_bounds s \<and> W_locks s \<and> W_nolock s \<and> W_next s \<and> W_inj s \<and> W_then s
            \<and> W_norej s \<and> W_resolved s \<and> W_prev s \<and> W_started s)"

text \<open>The two updates the events make: fulfilling a promise, moving a call on.\<close>

definition fulfil :: "nat \<Rightarrow> promise list \<Rightarrow> promise list" where
  "fulfil p h = h[p := (h ! p)\<lparr>settled := Fulfilled\<rparr>]"

definition setPhase :: "nat \<Rightarrow> 'a phase \<Rightarrow> 'a invocation list \<Rightarrow> 'a invocation list" where
  "setPhase n ph cs = cs[n := (cs ! n)\<lparr>phase := ph\<rparr>]"

section \<open>Example data\<close>

text \<open>
  A registry with one record, a forbidden double chest labelled \<open>Vault\<close>, as \<open>label_chest\<close>
  stores it.
\<close>

definition vault :: ChestRecord where
  "vault = \<lparr>chest_id = ''chest-1700000000000-k3x9qa'', label = ''Vault'', chest_notes = None,
            hidden = Some False, forbidden = Some True, ctype = double_chest,
            positions = [Vec3 10 64 10, Vec3 11 64 10], primary = Vec3 10 64 10,
            dimension = ''overworld'', createdAt = ''2024-01-01T00:00:00.000Z'',
            updatedAt = ''2024-01-01T00:00:00.000Z'', destroyed = Some False\<rparr>"

definition vaultStore :: RootStore where
  "vaultStore = \<lparr>version = 1, worlds = [''localhost:25565:overworld'' \<mapsto> [vault]]\<rparr>"

text \<open>A world with a chest at (10,64,10), a chest next to it at (11,64,10), stone below.\<close>
definition twoChests :: "Vec3 \<Rightarrow> string option" where
  "twoChests p = (if p = Vec3 10 64 10 \<or> p = Vec3 11 64 10 then Some ''chest''
                  else if p = Vec3 10 63 10 then Some ''stone'' else None)"



text \<open>
  A window of two container slots, the first holding cobblestone, followed by the 36
  inventory slots, with no numeric \<open>inventoryStart\<close> or \<open>inventoryEnd\<close>.
\<close>
definition smallWindow :: Window where
  "smallWindow =
     \<lparr>slots = [Some \<lparr>item_name = ''cobblestone'', item_count = 12, item_type = 35\<rparr>, None]
               @ replicate 36 None,
      window_inventoryStart = None, window_inventoryEnd = None\<rparr>"

text \<open>
  A record for another chest that arrives with the identifier of \<open>vault\<close>, and the record
  \<open>label_chest\<close> builds (with an empty identifier) for a chest labelled \<open>Pantry\<close>.
\<close>
definition pantryDup :: ChestRecord where
  "pantryDup = vault\<lparr>label := ''Pantry'', forbidden := Some False, ctype := single_chest,
                     positions := [Vec3 0 64 0], primary := Vec3 0 64 0\<rparr>"

definition pantry :: ChestRecord where
  "pantry = pantryDup\<lparr>chest_id := []\<rparr>"

text \<open>The record of \<open>vault\<close> as a caller passes it to relabel the chest \<open>VAULT\<close>, padded.\<close>
definition relabel :: ChestRecord where
  "relabel = vault\<lparr>chest_id := [], label := '' VAULT  '', forbidden := None\<rparr>"


section \<open>Properties of the registry\<close>

lemma posEquals_iff: "posEquals a b \<longleftrightarrow> a = b"
  by (cases a; cases b) (simp add: posEquals_def)


lemma worldChests_eq:
  "worldChests st wk = (case worlds st wk of None \<Rightarrow> [] | Some cs \<Rightarrow> cs)"
  by (simp add: worldChests_def ensureWorld_def split: option.splits)






lemma filter_single_find: "filter P xs = [a] \<Longrightarrow> find P xs = Some a"
  by (induction xs) (auto split: if_splits)

lemma filter_single_mem: "filter P xs = [a] \<Longrightarrow> a \<in> set xs \<and> P a"
proof -
  assume a: "filter P xs = [a]"
  have "a \<in> set (filter P xs)" by (simp add: a)
  then show ?thesis by simp
qed

lemma sortBy_pair:
  "sortBy cmp [a, b] = (if cmp a b \<le> 0 then [a, b] else [b, a])"
  by (simp add: sortBy_def)

lemma comparePos_lex: "comparePos a b \<le> 0 \<Longrightarrow> a \<noteq> b \<Longrightarrow> lexLess a b"
  by (cases a; cases b) (auto simp: comparePos_def lexLess_def split: if_splits)

lemma comparePos_lex': "\<not> comparePos a b \<le> 0 \<Longrightarrow> lexLess b a"
  by (cases a; cases b) (auto simp: comparePos_def lexLess_def split: if_splits)

lemma adjacent_neq: "n \<in> set (adjacent pos) \<Longrightarrow> n \<noteq> pos"
  by (cases pos) (auto simp: adjacent_def offset_def)

lemma detect_chest_pair:
  assumes "blk pos = Some ''chest''"
    and "filter (\<lambda>p. blk p = Some ''chest'') (adjacent pos) = [n]"
  shows "detectContainerAt blk pos =
           Inr \<lparr>det_type = double_chest,
                det_positions = (if comparePos pos n \<le> 0 then [pos, n] else [n, pos]),
                det_primary = (if comparePos pos n \<le> 0 then pos else n)\<rparr>"
proof -
  from filter_single_find [OF assms(2)]
  have "find (\<lambda>p. blk p = Some ''chest'')
          [offset pos 1 0 0, offset pos (- 1) 0 0, offset pos 0 0 1, offset pos 0 0 (- 1)] = Some n"
    by (simp only: adjacent_def)
  with assms(1) show ?thesis
    by (simp add: detectContainerAt_def sortBy_pair)
qed

lemma comparePos_swap: "a \<noteq> b \<Longrightarrow> (comparePos a b \<le> 0) = (\<not> comparePos b a \<le> 0)"
  by (cases a; cases b) (auto simp: comparePos_def split: if_splits)

text \<open>
  C7. Where \<open>pos\<close> holds a block named \<open>chest\<close> and exactly one of its four horizontal
  neighbours, \<open>n\<close>, holds a block named \<open>chest\<close>, \<open>detectContainerAt\<close> returns a
  \<open>double_chest\<close> whose positions are the two coordinates in ascending order by x, then
  y, then z, and whose primary is the first of them. When \<open>n\<close> in turn has \<open>pos\<close> as its
  only such neighbour, inspecting \<open>n\<close> gives the same classification.
\<close>
theorem detectContainerAt_double_chest:
  "blk pos = Some ''chest''
   \<and> filter (\<lambda>p. blk p = Some ''chest'') (adjacent pos) = [n]
   \<longrightarrow> (\<exists>lo hi. detectContainerAt blk pos =
                    Inr \<lparr>det_type = double_chest, det_positions = [lo, hi], det_primary = lo\<rparr>
               \<and> {lo, hi} = {pos, n} \<and> lexLess lo hi)
       \<and> (filter (\<lambda>p. blk p = Some ''chest'') (adjacent n) = [pos]
            \<longrightarrow> detectContainerAt blk n = detectContainerAt blk pos)"
proof (intro impI conjI)
  assume a: "blk pos = Some ''chest''
   \<and> filter (\<lambda>p. blk p = Some ''chest'') (adjacent pos) = [n]"
  then have mem: "n \<in> set (adjacent pos)" and bn: "blk n = Some ''chest''"
    using filter_single_mem [of "\<lambda>p. blk p = Some ''chest''" "adjacent pos" n] by simp_all
  then have neq: "n \<noteq> pos" by (simp add: adjacent_neq)
  note d = detect_chest_pair [of blk pos n]
  show "\<exists>lo hi. detectContainerAt blk pos =
                    Inr \<lparr>det_type = double_chest, det_positions = [lo, hi], det_primary = lo\<rparr>
               \<and> {lo, hi} = {pos, n} \<and> lexLess lo hi"
  proof (cases "comparePos pos n \<le> 0")
    case True
    with a d neq comparePos_lex [of pos n] show ?thesis by auto
  next
    case False
    with a d comparePos_lex' [of pos n] show ?thesis by auto
  qed
  show "detectContainerAt blk n = detectContainerAt blk pos"
    if "filter (\<lambda>p. blk p = Some ''chest'') (adjacent n) = [pos]"
    using detect_chest_pair [of blk n pos] d a bn that neq comparePos_swap [of n pos]
    by auto
qed

theorem detectContainerAt_double_chest_witness:
  "detectContainerAt twoChests (Vec3 10 64 10) =
     Inr \<lparr>det_type = double_chest, det_positions = [Vec3 10 64 10, Vec3 11 64 10],
          det_primary = Vec3 10 64 10\<rparr>
   \<and> detectContainerAt twoChests (Vec3 11 64 10) = detectContainerAt twoChests (Vec3 10 64 10)"
proof -
  have b: "twoChests (Vec3 10 64 10) = Some ''chest''"
    by (simp add: twoChests_def)
  have f1: "filter (\<lambda>p. twoChests p = Some ''chest'') (adjacent (Vec3 10 64 10)) = [Vec3 11 64 10]"
    by (simp add: twoChests_def adjacent_def offset_def)
  have f2: "filter (\<lambda>p. twoChests p = Some ''chest'') (adjacent (Vec3 11 64 10)) = [Vec3 10 64 10]"
    by (simp add: twoChests_def adjacent_def offset_def)
  from detectContainerAt_double_chest [of twoChests "Vec3 10 64 10" "Vec3 11 64 10"] b f1 f2
  obtain lo hi where d: "detectContainerAt twoChests (Vec3 10 64 10) =
        Inr \<lparr>det_type = double_chest, det_positions = [lo, hi], det_primary = lo\<rparr>"
    and s: "{lo, hi} = {Vec3 10 64 10, Vec3 11 64 10}" and l: "lexLess lo hi"
    and e: "detectContainerAt twoChests (Vec3 11 64 10) = detectContainerAt twoChests (Vec3 10 64 10)"
    by blast
  from s l have "lo = Vec3 10 64 10 \<and> hi = Vec3 11 64 10"
    by (auto simp: doubleton_eq_iff lexLess_def)
  with d e show ?thesis by simp
qed



















lemma slotInfo_default:
  assumes "window_inventoryStart w = None"
  shows "containerStart (getContainerSlotInfo w) = 0"
    and "containerEnd (getContainerSlotInfo w) = max (int (length (slots w)) - 36) 0"
    and "containerSize (getContainerSlotInfo w) = max (int (length (slots w)) - 36) 0"
  using assms by (simp_all add: getContainerSlotInfo_def Let_def)

lemma summarizeLoop_cong:
  assumes "\<forall>i. cs \<le> i \<and> i < ce \<longrightarrow> rd i = rd' i"
  shows "summarizeLoop rd cs ce = summarizeLoop rd' cs ce"
  unfolding summarizeLoop_def
  by (rule foldl_cong) (use assms in auto)

lemma countFreeLoop_cong:
  assumes "\<forall>i. cs \<le> i \<and> i < ce \<longrightarrow> rd i = rd' i"
  shows "countFreeLoop rd cs ce = countFreeLoop rd' cs ce"
  unfolding countFreeLoop_def
  by (rule foldl_cong) (use assms in auto)

text \<open>
  C10. For a window whose \<open>inventoryStart\<close> is not a number, \<open>containerEnd\<close> is
  \<open>max (slots.length - 36) 0\<close>, \<open>containerSize\<close> is not negative, every index the two
  loops visit lies in \<open>[0, slots.length)\<close>, and the results of
  \<open>summarizeContainerContents\<close> and \<open>countFreeContainerSlots\<close> are those of the loops run
  with any reader that agrees with the slot array inside that range: nothing outside it
  is read.
\<close>
theorem slotInfo_default_in_range:
  "window_inventoryStart w = None \<longrightarrow>
     containerEnd (getContainerSlotInfo w) = max (int (length (slots w)) - 36) 0
     \<and> 0 \<le> containerSize (getContainerSlotInfo w)
     \<and> (\<forall>i \<in> set [containerStart (getContainerSlotInfo w) .. containerEnd (getContainerSlotInfo w) - 1].
            0 \<le> i \<and> i < int (length (slots w)))
     \<and> (\<forall>rd. (\<forall>i. 0 \<le> i \<and> i < int (length (slots w)) \<longrightarrow> rd i = slotAt (slots w) i)
            \<longrightarrow> summarizeContainerContents w
                  = summarizeLoop rd 0 (max (int (length (slots w)) - 36) 0)
                \<and> countFreeContainerSlots w
                  = countFreeLoop rd 0 (max (int (length (slots w)) - 36) 0))"
proof (intro impI conjI ballI allI)
  assume a: "window_inventoryStart w = None"
  note info = slotInfo_default [OF a]
  show "containerEnd (getContainerSlotInfo w) = max (int (length (slots w)) - 36) 0"
    by (rule info)
  show "0 \<le> containerSize (getContainerSlotInfo w)"
    by (simp add: info)
  show "0 \<le> i" and "i < int (length (slots w))"
    if "i \<in> set [containerStart (getContainerSlotInfo w) .. containerEnd (getContainerSlotInfo w) - 1]"
    for i
    using that by (auto simp: info)
  show "summarizeContainerContents w = summarizeLoop rd 0 (max (int (length (slots w)) - 36) 0)"
    and "countFreeContainerSlots w = countFreeLoop rd 0 (max (int (length (slots w)) - 36) 0)"
    if r: "\<forall>i. 0 \<le> i \<and> i < int (length (slots w)) \<longrightarrow> rd i = slotAt (slots w) i"
    for rd
  proof -
    have agree: "\<forall>i. 0 \<le> i \<and> i < max (int (length (slots w)) - 36) 0
                   \<longrightarrow> slotAt (slots w) i = rd i"
      using r by auto
    show "summarizeContainerContents w = summarizeLoop rd 0 (max (int (length (slots w)) - 36) 0)"
      unfolding summarizeContainerContents_def Let_def info
      by (rule summarizeLoop_cong) (rule agree)
    show "countFreeContainerSlots w = countFreeLoop rd 0 (max (int (length (slots w)) - 36) 0)"
      unfolding countFreeContainerSlots_def Let_def info
      by (rule countFreeLoop_cong) (rule agree)
  qed
qed

lemma upto_0_1: "[0..1::int] = [0, 1]"
  by (simp add: upto.simps)

lemma smallWindow_slots:
  "slotAt (slots smallWindow) 0
     = Some \<lparr>item_name = ''cobblestone'', item_count = 12, item_type = 35\<rparr>"
  "slotAt (slots smallWindow) 1 = None"
  by (simp_all add: slotAt_def smallWindow_def)

theorem slotInfo_default_in_range_witness:
  "containerEnd (getContainerSlotInfo smallWindow) = 2
   \<and> containerSize (getContainerSlotInfo smallWindow) = 2
   \<and> summarizeContainerContents smallWindow = [(''cobblestone'', 12)]
   \<and> countFreeContainerSlots smallWindow = 1"
proof -
  have a: "window_inventoryStart smallWindow = None"
    and l: "int (length (slots smallWindow)) = 38"
    by (simp_all add: smallWindow_def)
  let ?rd = "slotAt (slots smallWindow)"
  from slotInfo_default_in_range [of smallWindow] a
  have e: "containerEnd (getContainerSlotInfo smallWindow) = max (int (length (slots smallWindow)) - 36) 0"
    and s: "summarizeContainerContents smallWindow
              = summarizeLoop ?rd 0 (max (int (length (slots smallWindow)) - 36) 0)"
    and c: "countFreeContainerSlots smallWindow
              = countFreeLoop ?rd 0 (max (int (length (slots smallWindow)) - 36) 0)"
    by blast+
  have z: "containerSize (getContainerSlotInfo smallWindow) = 2"
    by (simp add: getContainerSlotInfo_def smallWindow_def)
  have s2: "summarizeLoop ?rd 0 2 = [(''cobblestone'', 12)]"
    by (simp add: summarizeLoop_def upto_0_1 smallWindow_slots)
  have c2: "countFreeLoop ?rd 0 2 = 1"
    by (simp add: countFreeLoop_def upto_0_1 smallWindow_slots)
  from e s c z s2 c2 show ?thesis
    by (simp add: l)
qed

lemma findIndex_SomeD:
  "findIndex P xs = Some i \<Longrightarrow> i < length xs \<and> P (xs ! i) \<and> (\<forall>j < i. \<not> P (xs ! j))"
proof (induction xs arbitrary: i)
  case Nil
  then show ?case by simp
next
  case (Cons x xs)
  show ?case
  proof (cases "P x")
    case True
    with Cons.prems show ?thesis by simp
  next
    case False
    with Cons.prems obtain k where k: "findIndex P xs = Some k" and i: "i = Suc k"
      by auto
    from Cons.IH [OF k] False i show ?thesis
      by (auto simp: nth_Cons split: nat.splits)
  qed
qed

lemma findIndex_None_iff: "findIndex P xs = None \<longleftrightarrow> (\<forall>x \<in> set xs. \<not> P x)"
  by (induction xs) auto

lemma findIndex_first:
  "i < length xs \<Longrightarrow> P (xs ! i) \<Longrightarrow> \<forall>j < i. \<not> P (xs ! j) \<Longrightarrow> findIndex P xs = Some i"
proof (induction xs arbitrary: i)
  case Nil
  then show ?case by simp
next
  case (Cons x xs)
  show ?case
  proof (cases i)
    case 0
    with Cons.prems show ?thesis by simp
  next
    case (Suc k)
    with Cons.prems have "\<not> P x" by auto
    moreover from Suc Cons.prems have "findIndex P xs = Some k"
      by (intro Cons.IH) auto
    ultimately show ?thesis using Suc by simp
  qed
qed

lemma findIndex_update_found:
  assumes "findIndex P xs = Some i" and "P e"
  shows "findIndex P (xs[i := e]) = Some i"
proof -
  from findIndex_SomeD [OF assms(1)] have "i < length xs" and "\<forall>j < i. \<not> P (xs ! j)"
    by simp_all
  with assms(2) show ?thesis
    by (intro findIndex_first) simp_all
qed

lemma findIndex_update_none:
  assumes "findIndex P xs = None" and "i < length xs" and "P e"
  shows "findIndex P (xs[i := e]) = Some i"
proof -
  from assms(1) have "\<forall>j < length xs. \<not> P (xs ! j)"
    by (simp add: findIndex_None_iff)
  with assms(2,3) show ?thesis
    by (intro findIndex_first) simp_all
qed

lemma findIndex_snoc_none:
  assumes "findIndex P xs = None"
  shows "findIndex P (xs @ [e]) = (if P e then Some (length xs) else None)"
proof (cases "P e")
  case True
  from assms have "\<forall>j < length xs. \<not> P (xs ! j)"
    by (simp add: findIndex_None_iff)
  with True have "findIndex P (xs @ [e]) = Some (length xs)"
    by (intro findIndex_first) (simp_all add: nth_append)
  with True show ?thesis by simp
next
  case False
  with assms show ?thesis by (simp add: findIndex_None_iff)
qed

lemma upsertChest_unfold:
  "upsertChest st wk record now g =
     (case resolveExisting (worldChests st wk) record of
        Some i \<Rightarrow>
          (assignExisting (worldChests st wk ! i) record now,
           st\<lparr>worlds := (worlds st)(wk \<mapsto>
                  (worldChests st wk)[i := assignExisting (worldChests st wk ! i) record now])\<rparr>)
      | None \<Rightarrow>
          (newRec record now g,
           st\<lparr>worlds := (worlds st)(wk \<mapsto> worldChests st wk @ [newRec record now g])\<rparr>))"
proof -
  have p: "(\<lambda>c. posEquals (primary c) (primary record)) = (\<lambda>c. primary c = primary record)"
    by (rule ext) (simp add: posEquals_iff)
  show ?thesis
    by (cases "worlds st wk")
       (simp_all add: upsertChest_def ensureWorld_def worldChests_def resolveExisting_def
          normalizeLabel_def p Let_def split: option.splits)
qed

lemma worldChests_after:
  "worldChests (st\<lparr>worlds := (worlds st)(wk \<mapsto> cs)\<rparr>) wk = cs"
  by (simp add: worldChests_eq)

lemma upsertChest_found:
  assumes "resolveExisting (worldChests st wk) record = Some i"
  shows "fst (upsertChest st wk record now g) = assignExisting (worldChests st wk ! i) record now"
    and "worldChests (snd (upsertChest st wk record now g)) wk
           = (worldChests st wk)[i := assignExisting (worldChests st wk ! i) record now]"
  using assms by (simp_all add: upsertChest_unfold worldChests_after)

lemma upsertChest_new:
  assumes "resolveExisting (worldChests st wk) record = None"
  shows "fst (upsertChest st wk record now g) = newRec record now g"
    and "worldChests (snd (upsertChest st wk record now g)) wk
           = worldChests st wk @ [newRec record now g]"
  using assms by (simp_all add: upsertChest_unfold worldChests_after)

lemma resolveExisting_bound:
  "resolveExisting cs record = Some i \<Longrightarrow> i < length cs"
  by (auto simp: resolveExisting_def split: option.splits dest: findIndex_SomeD)

lemma assignExisting_overwritten: "overwritten old record now (assignExisting old record now)"
  by (simp add: overwritten_def assignExisting_def normalizeLabel_def)

lemma resolve_after_new:
  assumes "resolveExisting cs record = None"
    and "label record2 = label record" and "primary record2 = primary record"
  shows "resolveExisting (cs @ [newRec record now g]) record2 = Some (length cs)"
proof -
  let ?L = "\<lambda>c. toLowerCase (label c) = toLowerCase (trim (label record))"
  let ?Q = "\<lambda>c. primary c = primary record"
  have r2: "\<And>xs. resolveExisting xs record2 =
     (case findIndex ?L xs of Some i \<Rightarrow> Some i | None \<Rightarrow> findIndex ?Q xs)"
    unfolding resolveExisting_def assms(2,3) by (rule refl)
  from assms(1) have l: "findIndex ?L cs = None" and q: "findIndex ?Q cs = None"
    by (simp_all add: resolveExisting_def split: option.splits)
  have qn: "?Q (newRec record now g)" by (simp add: newRec_def)
  show ?thesis
    by (simp add: r2 findIndex_snoc_none [OF l] findIndex_snoc_none [OF q] qn)
qed

lemma resolve_after_found:
  assumes "resolveExisting cs record = Some i"
    and "label record2 = label record" and "primary record2 = primary record"
  shows "resolveExisting (cs[i := assignExisting (cs ! i) record now]) record2 = Some i"
proof -
  let ?L = "\<lambda>c. toLowerCase (label c) = toLowerCase (trim (label record))"
  let ?Q = "\<lambda>c. primary c = primary record"
  let ?e = "assignExisting (cs ! i) record now"
  have r2: "\<And>xs. resolveExisting xs record2 =
     (case findIndex ?L xs of Some i \<Rightarrow> Some i | None \<Rightarrow> findIndex ?Q xs)"
    unfolding resolveExisting_def assms(2,3) by (rule refl)
  have le: "?L ?e" by (simp add: assignExisting_def normalizeLabel_def)
  from resolveExisting_bound [OF assms(1)] have i: "i < length cs" .
  have "findIndex ?L (cs[i := ?e]) = Some i"
  proof (cases "findIndex ?L cs")
    case None
    from findIndex_update_none [OF None i le] show ?thesis .
  next
    case (Some k)
    with assms(1) have "k = i"
      by (simp add: resolveExisting_def)
    with findIndex_update_found [OF Some le] show ?thesis by simp
  qed
  then show ?thesis by (simp add: r2)
qed

lemma filter_length_update:
  assumes "i < length xs"
  shows "length (filter P (xs[i := e])) + (if P (xs ! i) then 1 else 0)
           = length (filter P xs) + (if P e then 1 else 0)"
proof -
  let ?a = "take i xs" and ?b = "drop (Suc i) xs"
  from assms have u: "xs[i := e] = ?a @ e # ?b"
    by (rule upd_conv_take_nth_drop)
  from assms have "?a @ xs ! i # ?b = xs"
    by (rule id_take_nth_drop [symmetric])
  then have "length (filter P xs) = length (filter P (?a @ xs ! i # ?b))"
    by simp
  then have x: "length (filter P xs)
                  = length (filter P ?a) + (if P (xs ! i) then 1 else 0) + length (filter P ?b)"
    by simp
  have "length (filter P (xs[i := e]))
          = length (filter P ?a) + (if P e then 1 else 0) + length (filter P ?b)"
    by (simp add: u)
  with x show ?thesis by simp
qed

lemma findIndex_None_filter: "findIndex P xs = None \<Longrightarrow> filter P xs = []"
  by (simp add: findIndex_None_iff filter_empty_conv)

lemma labelCount_after_found:
  assumes r: "resolveExisting cs record = Some i"
    and one: "labelCount (label record) cs \<le> 1"
    and e: "label e = trim (label record)"
  shows "labelCount (label record) (cs[i := e]) = 1"
proof -
  let ?L = "\<lambda>c. toLowerCase (label c) = toLowerCase (trim (label record))"
  from resolveExisting_bound [OF r] have i: "i < length cs" .
  from e have le: "?L e" by simp
  note u = filter_length_update [OF i, of ?L e]
  show ?thesis
  proof (cases "findIndex ?L cs")
    case None
    then have "filter ?L cs = []" by (rule findIndex_None_filter)
    moreover from None i have "\<not> ?L (cs ! i)"
      by (simp add: findIndex_None_iff)
    ultimately show ?thesis using u le by (simp add: labelCount_def)
  next
    case (Some k)
    with r have "k = i" by (simp add: resolveExisting_def)
    with findIndex_SomeD [OF Some] have "?L (cs ! i)" by simp
    moreover from this i have "cs ! i \<in> set (filter ?L cs)"
      by simp
    then have "length (filter ?L cs) \<ge> 1"
      by (metis length_pos_if_in_set less_eq_Suc_le One_nat_def)
    ultimately show ?thesis using u le one by (simp add: labelCount_def)
  qed
qed

lemma labelCount_after_new:
  assumes r: "resolveExisting cs record = None"
    and e: "label e = trim (label record)"
  shows "labelCount (label record) (cs @ [e]) = 1"
proof -
  let ?L = "\<lambda>c. toLowerCase (label c) = toLowerCase (trim (label record))"
  from r have "findIndex ?L cs = None"
    by (simp add: resolveExisting_def split: option.splits)
  then have "filter ?L cs = []" by (rule findIndex_None_filter)
  with e show ?thesis by (simp add: labelCount_def)
qed

lemma assignExisting_keeps:
  "chest_id (assignExisting old record now) = chest_id old"
  "createdAt (assignExisting old record now) = createdAt old"
  "label (assignExisting old record now) = trim (label record)"
  by (simp_all add: assignExisting_def normalizeLabel_def)

text \<open>Two upserts with the same label and primary coordinate.\<close>

lemma upsert_twice:
  assumes same: "label record2 = label record" "primary record2 = primary record"
  shows "length (worldChests (snd (upsertChest (snd (upsertChest st wk record now g)) wk record2 now2 g2)) wk)
           = length (worldChests (snd (upsertChest st wk record now g)) wk)
        \<and> fst (upsertChest (snd (upsertChest st wk record now g)) wk record2 now2 g2)
           = assignExisting (fst (upsertChest st wk record now g)) record2 now2
        \<and> fst (upsertChest (snd (upsertChest st wk record now g)) wk record2 now2 g2)
           \<in> set (worldChests (snd (upsertChest (snd (upsertChest st wk record now g)) wk record2 now2 g2)) wk)
        \<and> (labelCount (label record) (worldChests st wk) \<le> 1
              \<longrightarrow> labelCount (label record)
                    (worldChests (snd (upsertChest (snd (upsertChest st wk record now g)) wk record2 now2 g2)) wk) = 1)"
proof -
  define st1 where "st1 = snd (upsertChest st wk record now g)"
  define r1 where "r1 = fst (upsertChest st wk record now g)"
  define st2 where "st2 = snd (upsertChest st1 wk record2 now2 g2)"
  define r2 where "r2 = fst (upsertChest st1 wk record2 now2 g2)"
  let ?cs = "worldChests st wk"
  have "length (worldChests st2 wk) = length (worldChests st1 wk)
        \<and> r2 = assignExisting r1 record2 now2
        \<and> r2 \<in> set (worldChests st2 wk)
        \<and> (labelCount (label record) ?cs \<le> 1
              \<longrightarrow> labelCount (label record) (worldChests st2 wk) = 1)"
  proof (cases "resolveExisting ?cs record")
    case None
    let ?n = "newRec record now g"
    from upsertChest_new [OF None, of now g]
    have r1: "r1 = ?n" and c1: "worldChests st1 wk = ?cs @ [?n]"
      by (simp_all add: r1_def st1_def)
    from resolve_after_new [OF None same, of now g] c1
    have res: "resolveExisting (worldChests st1 wk) record2 = Some (length ?cs)"
      by simp
    from upsertChest_found [OF res, of now2 g2] c1 r1
    have r2: "r2 = assignExisting r1 record2 now2"
      and c2: "worldChests st2 wk = ?cs @ [r2]"
      by (simp_all add: r2_def st2_def)
    have "label r2 = trim (label record)"
      by (simp add: r2 assignExisting_keeps same)
    from labelCount_after_new [OF None this] c1 c2 r2 show ?thesis
      by simp
  next
    case (Some i)
    let ?e = "assignExisting (?cs ! i) record now"
    from resolveExisting_bound [OF Some] have i: "i < length ?cs" .
    from upsertChest_found [OF Some, of now g]
    have r1: "r1 = ?e" and c1: "worldChests st1 wk = ?cs[i := ?e]"
      by (simp_all add: r1_def st1_def)
    from resolve_after_found [OF Some same, of now] c1
    have res: "resolveExisting (worldChests st1 wk) record2 = Some i"
      by simp
    from upsertChest_found [OF res, of now2 g2] c1 r1 i
    have r2: "r2 = assignExisting r1 record2 now2"
      and c2: "worldChests st2 wk = ?cs[i := r2]"
      by (simp_all add: r2_def st2_def)
    have l2: "label r2 = trim (label record)"
      by (simp add: r2 assignExisting_keeps same)
    have "r2 \<in> set (worldChests st2 wk)"
      using i by (simp add: c2 set_update_memI)
    with labelCount_after_found [OF Some _ l2] c1 c2 r2 i show ?thesis
      by simp
  qed
  then show ?thesis
    unfolding r2_def st2_def r1_def st1_def .
qed

text \<open>
  C5. \<open>upsertChest\<close> resolves an existing record by the first case-insensitive label
  match, else by the first exact match of the primary coordinate. When one is found at
  index \<open>i\<close>, that record has its mutable fields overwritten, \<open>updatedAt\<close> set to the
  current time and \<open>destroyed\<close> cleared, keeps its \<open>id\<close> and \<open>createdAt\<close>, stays at index
  \<open>i\<close> and is returned. Otherwise the returned record is appended, timestamped, with the
  caller's \<open>id\<close> when that is not empty and the generated one otherwise. A second call
  with the same label and primary coordinate adds no record: it overwrites the record the
  first call returned, and when at most one record carried the label before the two
  calls, exactly one carries it after them.
\<close>
theorem upsertChest_merge_or_append:
  "(\<forall>i. resolveExisting (worldChests st wk) record = Some i \<longrightarrow>
       i < length (worldChests st wk)
       \<and> overwritten (worldChests st wk ! i) record now (fst (upsertChest st wk record now g))
       \<and> worldChests (snd (upsertChest st wk record now g)) wk
           = (worldChests st wk)[i := fst (upsertChest st wk record now g)])
   \<and> (resolveExisting (worldChests st wk) record = None \<longrightarrow>
       worldChests (snd (upsertChest st wk record now g)) wk
         = worldChests st wk @ [fst (upsertChest st wk record now g)]
       \<and> chest_id (fst (upsertChest st wk record now g))
           = (if chest_id record = [] then g else chest_id record)
       \<and> createdAt (fst (upsertChest st wk record now g)) = now
       \<and> updatedAt (fst (upsertChest st wk record now g)) = now
       \<and> destroyed (fst (upsertChest st wk record now g)) = Some False)
   \<and> (\<forall>record2 now2 g2. label record2 = label record \<and> primary record2 = primary record \<longrightarrow>
       length (worldChests (snd (upsertChest (snd (upsertChest st wk record now g)) wk record2 now2 g2)) wk)
           = length (worldChests (snd (upsertChest st wk record now g)) wk)
        \<and> fst (upsertChest (snd (upsertChest st wk record now g)) wk record2 now2 g2)
           = assignExisting (fst (upsertChest st wk record now g)) record2 now2
        \<and> fst (upsertChest (snd (upsertChest st wk record now g)) wk record2 now2 g2)
           \<in> set (worldChests (snd (upsertChest (snd (upsertChest st wk record now g)) wk record2 now2 g2)) wk)
        \<and> (labelCount (label record) (worldChests st wk) \<le> 1
              \<longrightarrow> labelCount (label record)
                    (worldChests (snd (upsertChest (snd (upsertChest st wk record now g)) wk record2 now2 g2)) wk) = 1))"
proof (intro conjI allI impI)
  fix i assume r: "resolveExisting (worldChests st wk) record = Some i"
  show "i < length (worldChests st wk)"
    by (rule resolveExisting_bound [OF r])
  show "overwritten (worldChests st wk ! i) record now (fst (upsertChest st wk record now g))"
    by (simp add: upsertChest_found [OF r] assignExisting_overwritten)
  show "worldChests (snd (upsertChest st wk record now g)) wk
           = (worldChests st wk)[i := fst (upsertChest st wk record now g)]"
    by (simp add: upsertChest_found [OF r])
next
  assume r: "resolveExisting (worldChests st wk) record = None"
  show "worldChests (snd (upsertChest st wk record now g)) wk
         = worldChests st wk @ [fst (upsertChest st wk record now g)]"
    by (simp add: upsertChest_new [OF r])
  show "chest_id (fst (upsertChest st wk record now g))
           = (if chest_id record = [] then g else chest_id record)"
    and "createdAt (fst (upsertChest st wk record now g)) = now"
    and "updatedAt (fst (upsertChest st wk record now g)) = now"
    and "destroyed (fst (upsertChest st wk record now g)) = Some False"
    by (simp_all add: upsertChest_new [OF r] newRec_def)
next
  fix record2 :: ChestRecord and now2 g2 :: string
  assume s: "label record2 = label record \<and> primary record2 = primary record"
  then have s1: "label record2 = label record" and s2: "primary record2 = primary record"
    by simp_all
  note t = upsert_twice [OF s1 s2, of st wk now g now2 g2]
  from t show "length (worldChests (snd (upsertChest (snd (upsertChest st wk record now g)) wk record2 now2 g2)) wk)
           = length (worldChests (snd (upsertChest st wk record now g)) wk)"
    by (rule conjunct1)
  from t show "fst (upsertChest (snd (upsertChest st wk record now g)) wk record2 now2 g2)
           = assignExisting (fst (upsertChest st wk record now g)) record2 now2"
    by blast
  from t show "fst (upsertChest (snd (upsertChest st wk record now g)) wk record2 now2 g2)
           \<in> set (worldChests (snd (upsertChest (snd (upsertChest st wk record now g)) wk record2 now2 g2)) wk)"
    by blast
  from t show "labelCount (label record)
                    (worldChests (snd (upsertChest (snd (upsertChest st wk record now g)) wk record2 now2 g2)) wk) = 1"
    if "labelCount (label record) (worldChests st wk) \<le> 1"
    using that by blast
qed

lemma lower_VAULT: "toLowerCase (trim '' VAULT  '') = ''vault''"
  by (simp add: trim_def isSpace_def toLowerCase_def toLowerCase_char_def)

lemma lower_Vault: "toLowerCase ''Vault'' = ''vault''"
  by (simp add: toLowerCase_def toLowerCase_char_def)

lemma lower_Pantry: "toLowerCase (trim ''Pantry'') = ''pantry''"
  by (simp add: trim_def isSpace_def toLowerCase_def toLowerCase_char_def)

lemma vaultStore_chests: "worldChests vaultStore ''localhost:25565:overworld'' = [vault]"
  by (simp add: worldChests_eq vaultStore_def)

lemma resolve_relabel: "resolveExisting [vault] relabel = Some 0"
  by (simp add: resolveExisting_def relabel_def vault_def lower_VAULT lower_Vault)

lemma resolve_pantry: "resolveExisting [vault] pantry = None"
  "resolveExisting [vault] pantryDup = None"
  by (simp_all add: resolveExisting_def pantry_def pantryDup_def vault_def lower_Pantry lower_Vault)

theorem upsertChest_merge_or_append_witness:
  "label (fst (upsertChest vaultStore ''localhost:25565:overworld'' relabel
                 ''2024-02-01T00:00:00.000Z'' ''chest-1706745600000-a1b2c3'')) = ''VAULT''
   \<and> chest_id (fst (upsertChest vaultStore ''localhost:25565:overworld'' relabel
                 ''2024-02-01T00:00:00.000Z'' ''chest-1706745600000-a1b2c3'')) = chest_id vault
   \<and> chest_id (fst (upsertChest vaultStore ''localhost:25565:overworld'' pantry
                 ''2024-02-01T00:00:00.000Z'' ''chest-1706745600000-a1b2c3''))
        = ''chest-1706745600000-a1b2c3''
   \<and> length (worldChests (snd (upsertChest
         (snd (upsertChest vaultStore ''localhost:25565:overworld'' pantry
                 ''2024-02-01T00:00:00.000Z'' ''chest-1706745600000-a1b2c3''))
         ''localhost:25565:overworld'' pantry
                 ''2024-02-02T00:00:00.000Z'' ''chest-1706832000000-d4e5f6''))
         ''localhost:25565:overworld'') = 2
   \<and> labelCount ''Pantry'' (worldChests (snd (upsertChest
         (snd (upsertChest vaultStore ''localhost:25565:overworld'' pantry
                 ''2024-02-01T00:00:00.000Z'' ''chest-1706745600000-a1b2c3''))
         ''localhost:25565:overworld'' pantry
                 ''2024-02-02T00:00:00.000Z'' ''chest-1706832000000-d4e5f6''))
         ''localhost:25565:overworld'') = 1"
proof -
  let ?wk = "''localhost:25565:overworld''"
  let ?t1 = "''2024-02-01T00:00:00.000Z''" and ?g1 = "''chest-1706745600000-a1b2c3''"
  let ?t2 = "''2024-02-02T00:00:00.000Z''" and ?g2 = "''chest-1706832000000-d4e5f6''"
  have rr: "resolveExisting (worldChests vaultStore ?wk) relabel = Some 0"
    and rp: "resolveExisting (worldChests vaultStore ?wk) pantry = None"
    by (simp_all add: vaultStore_chests resolve_relabel resolve_pantry)
  have lc: "labelCount (label pantry) (worldChests vaultStore ?wk) \<le> 1"
    by (simp add: labelCount_def vaultStore_chests)
  have lp: "label pantry = ''Pantry''" and ip: "chest_id pantry = []"
    by (simp_all add: pantry_def pantryDup_def)
  from upsertChest_merge_or_append [of vaultStore ?wk relabel ?t1 ?g1] rr
  have o: "overwritten (worldChests vaultStore ?wk ! 0) relabel ?t1
             (fst (upsertChest vaultStore ?wk relabel ?t1 ?g1))"
    by blast
  then have a: "label (fst (upsertChest vaultStore ?wk relabel ?t1 ?g1)) = ''VAULT''"
    and b: "chest_id (fst (upsertChest vaultStore ?wk relabel ?t1 ?g1)) = chest_id vault"
    by (simp_all add: overwritten_def vaultStore_chests relabel_def trim_def isSpace_def)
  note p = upsertChest_merge_or_append [of vaultStore ?wk pantry ?t1 ?g1]
  from p rp have c: "chest_id (fst (upsertChest vaultStore ?wk pantry ?t1 ?g1)) = ?g1"
    and l1: "worldChests (snd (upsertChest vaultStore ?wk pantry ?t1 ?g1)) ?wk
               = worldChests vaultStore ?wk @ [fst (upsertChest vaultStore ?wk pantry ?t1 ?g1)]"
    by (simp_all add: ip)
  from p have
    "length (worldChests (snd (upsertChest (snd (upsertChest vaultStore ?wk pantry ?t1 ?g1))
                                 ?wk pantry ?t2 ?g2)) ?wk)
       = length (worldChests (snd (upsertChest vaultStore ?wk pantry ?t1 ?g1)) ?wk)"
    and "labelCount (label pantry) (worldChests vaultStore ?wk) \<le> 1
           \<longrightarrow> labelCount (label pantry)
                 (worldChests (snd (upsertChest (snd (upsertChest vaultStore ?wk pantry ?t1 ?g1))
                                 ?wk pantry ?t2 ?g2)) ?wk) = 1"
    by blast+
  with lc l1 have d: "length (worldChests (snd (upsertChest (snd (upsertChest vaultStore ?wk pantry ?t1 ?g1))
                                 ?wk pantry ?t2 ?g2)) ?wk) = 2"
    and e: "labelCount ''Pantry''
                 (worldChests (snd (upsertChest (snd (upsertChest vaultStore ?wk pantry ?t1 ?g1))
                                 ?wk pantry ?t2 ?g2)) ?wk) = 1"
    by (simp_all add: vaultStore_chests lp)
  from a b c d e show ?thesis by blast
qed

theorem upsertChest_fresh_id_counterexample:
  "worldChests (snd (upsertChest vaultStore ''localhost:25565:overworld'' pantryDup
                       ''2024-02-01T00:00:00.000Z'' ''chest-1706745600000-a1b2c3''))
               ''localhost:25565:overworld''
     = [vault, fst (upsertChest vaultStore ''localhost:25565:overworld'' pantryDup
                       ''2024-02-01T00:00:00.000Z'' ''chest-1706745600000-a1b2c3'')]
   \<and> chest_id (fst (upsertChest vaultStore ''localhost:25565:overworld'' pantryDup
                       ''2024-02-01T00:00:00.000Z'' ''chest-1706745600000-a1b2c3''))
       = chest_id vault"
proof -
  have "resolveExisting (worldChests vaultStore ''localhost:25565:overworld'') pantryDup = None"
    by (simp add: vaultStore_chests resolve_pantry)
  from upsertChest_new [OF this] show ?thesis
    by (simp add: vaultStore_chests newRec_def pantryDup_def vault_def)
qed










section \<open>Properties of the keyed mutex\<close>

lemma fulfil_simps [simp]:
  "length (fulfil p h) = length h"
  "p < length h \<Longrightarrow> kind (fulfil p h ! q) = kind (h ! q)"
  "p < length h \<Longrightarrow> settled (fulfil p h ! q) = (if q = p then Fulfilled else settled (h ! q))"
  by (simp_all add: fulfil_def nth_list_update)

lemma setPhase_simps [simp]:
  "length (setPhase n ph cs) = length cs"
  "n < length cs \<Longrightarrow> lockKey (setPhase n ph cs ! m) = lockKey (cs ! m)"
  "n < length cs \<Longrightarrow> prevId (setPhase n ph cs ! m) = prevId (cs ! m)"
  "n < length cs \<Longrightarrow> nextId (setPhase n ph cs ! m) = nextId (cs ! m)"
  "n < length cs \<Longrightarrow> phase (setPhase n ph cs ! m) = (if m = n then ph else phase (cs ! m))"
  by (simp_all add: setPhase_def nth_list_update)

lemma wellformedD:
  assumes "wellformed s"
  shows "W_bounds s" "W_locks s" "W_nolock s" "W_next s" "W_inj s" "W_then s"
    "W_norej s" "W_resolved s" "W_prev s" "W_started s"
  using assms by (simp_all add: wellformed_def)

lemma resume_eff:
  assumes "wellformed s" and "resume n s = Some s'"
  shows "n < length (calls s)" and "phase (calls s ! n) = AwaitingPrev"
    and "settled (heap s ! prevId (calls s ! n)) = Fulfilled"
    and "s' = s\<lparr>calls := setPhase n Running (calls s)\<rparr>"
proof -
  from assms(2) have n: "n < length (calls s)" and ph: "phase (calls s ! n) = AwaitingPrev"
    and b: "prevId (calls s ! n) < length (heap s)"
    by (simp_all add: resume_def split: if_splits)
  from wellformedD(7) [OF assms(1)] b have "\<And>e. settled (heap s ! prevId (calls s ! n)) \<noteq> Rejected e"
    by (simp add: W_norej_def)
  with assms(2) n ph b
  show "settled (heap s ! prevId (calls s ! n)) = Fulfilled"
    and "s' = s\<lparr>calls := setPhase n Running (calls s)\<rparr>"
    by (auto simp: resume_def setPhase_def split: pstate.splits)
  from n ph show "n < length (calls s)" and "phase (calls s ! n) = AwaitingPrev" .
qed

lemma never_deleted:
  assumes "wellformed s" and "n < length (calls s)"
  shows "locks s k \<noteq> Some (nextId (calls s ! n))"
proof
  assume l: "locks s k = Some (nextId (calls s ! n))"
  with wellformedD(2) [OF assms(1)] obtain a b where "kind (heap s ! nextId (calls s ! n)) = Then a b"
    unfolding W_locks_def by blast
  moreover from wellformedD(4) [OF assms(1)] assms(2) have "kind (heap s ! nextId (calls s ! n)) = Executor"
    by (simp add: W_next_def)
  ultimately show False by simp
qed

lemma leave_eff:
  assumes "wellformed s" and "n < length (calls s)"
  shows "leave n out s = s\<lparr>heap := fulfil (nextId (calls s ! n)) (heap s),
                           calls := setPhase n (Done out) (calls s)\<rparr>"
proof -
  let ?c = "calls s ! n"
  from wellformedD(1) [OF assms(1)] assms(2) have b: "nextId ?c < length (heap s)"
    by (simp add: W_bounds_def)
  have "resolveNext (nextId ?c) (heap s) = fulfil (nextId ?c) (heap s)"
  proof (cases "settled (heap s ! nextId ?c) = Pending")
    case True
    with b show ?thesis by (simp add: resolveNext_def fulfil_def)
  next
    case False
    with wellformedD(4) [OF assms(1)] assms(2) have "settled (heap s ! nextId ?c) = Fulfilled"
      by (simp add: W_next_def split: if_splits)
    then have "(heap s ! nextId ?c)\<lparr>settled := Fulfilled\<rparr> = heap s ! nextId ?c"
      by (cases "heap s ! nextId ?c") simp
    with False show ?thesis by (simp add: resolveNext_def fulfil_def)
  qed
  with never_deleted [OF assms, of "lockKey ?c"] show ?thesis
    by (simp add: leave_def setPhase_def Let_def)
qed

lemma finish_eff:
  assumes "wellformed s" and "finish n out s = Some s'"
  shows "n < length (calls s)" and "phase (calls s ! n) = Running"
    and "s' = s\<lparr>heap := fulfil (nextId (calls s ! n)) (heap s),
                calls := setPhase n (Done out) (calls s)\<rparr>"
proof -
  from assms(2) show n: "n < length (calls s)" and "phase (calls s ! n) = Running"
    by (simp_all add: finish_def split: if_splits)
  with assms(2) have "s' = leave n out s"
    by (simp add: finish_def)
  with leave_eff [OF assms(1) n] show "s' = s\<lparr>heap := fulfil (nextId (calls s ! n)) (heap s),
                calls := setPhase n (Done out) (calls s)\<rparr>"
    by simp
qed

lemma settle_eff:
  assumes "wellformed s" and "settle p s = Some s'"
  shows "\<exists>a b. p < length (heap s) \<and> kind (heap s ! p) = Then a b
           \<and> settled (heap s ! p) = Pending
           \<and> settled (heap s ! a) = Fulfilled \<and> settled (heap s ! b) = Fulfilled
           \<and> s' = s\<lparr>heap := fulfil p (heap s)\<rparr>"
proof -
  from assms(2) have p: "p < length (heap s)" and pe: "settled (heap s ! p) = Pending"
    by (simp_all add: settle_def split: if_splits)
  from assms(2) p pe obtain a b where k: "kind (heap s ! p) = Then a b"
    by (cases "kind (heap s ! p)") (simp_all add: settle_def)
  from assms(2) p pe k have ab: "a < length (heap s)" "b < length (heap s)"
    by (simp_all add: settle_def split: if_splits)
  from wellformedD(7) [OF assms(1)] ab
  have nr: "\<And>e. settled (heap s ! a) \<noteq> Rejected e" "\<And>e. settled (heap s ! b) \<noteq> Rejected e"
    by (simp_all add: W_norej_def)
  from assms(2) p pe k ab nr
  have "settled (heap s ! a) = Fulfilled \<and> settled (heap s ! b) = Fulfilled
           \<and> s' = s\<lparr>heap := fulfil p (heap s)\<rparr>"
    by (auto simp: settle_def fulfil_def split: pstate.splits)
  with p pe k show ?thesis by blast
qed

lemma wellformed_resume:
  assumes w: "wellformed s" and r: "resume n s = Some s'"
  shows "wellformed s'"
proof -
  note e = resume_eff [OF w r]
  note n = e(1)
  have s': "heap s' = heap s" "locks s' = locks s" "calls s' = setPhase n Running (calls s)"
    by (simp_all add: e(4))
  have "W_bounds s'"
    using wellformedD(1) [OF w] n by (simp add: W_bounds_def s')
  moreover have "W_locks s'"
    using wellformedD(2) [OF w] n by (simp add: W_locks_def s')
  moreover have "W_nolock s'"
    using wellformedD(3) [OF w] n by (simp add: W_nolock_def s')
  moreover have "W_next s'"
    using wellformedD(4) [OF w] n e(2) by (simp add: W_next_def s')
  moreover have "W_inj s'"
    using wellformedD(5) [OF w] n by (simp add: W_inj_def s')
  moreover have "W_then s'"
    using wellformedD(6) [OF w] by (simp add: W_then_def s')
  moreover have "W_norej s'"
    using wellformedD(7) [OF w] by (simp add: W_norej_def s')
  moreover have "W_resolved s'"
    using wellformedD(8) [OF w] by (simp add: W_resolved_def s')
  moreover have "W_prev s'"
    using wellformedD(9) [OF w] n by (simp add: W_prev_def s')
  moreover have "W_started s'"
    using wellformedD(10) [OF w] n e(3) by (simp add: W_started_def s')
  ultimately show ?thesis by (simp add: wellformed_def)
qed

lemma wellformed_settle:
  assumes w: "wellformed s" and r: "settle p s = Some s'"
  shows "wellformed s'"
proof -
  from settle_eff [OF w r] obtain a b where p: "p < length (heap s)"
    and k: "kind (heap s ! p) = Then a b" and pe: "settled (heap s ! p) = Pending"
    and fa: "settled (heap s ! a) = Fulfilled" and fb: "settled (heap s ! b) = Fulfilled"
    and e: "s' = s\<lparr>heap := fulfil p (heap s)\<rparr>"
    by blast
  have s': "heap s' = fulfil p (heap s)" "locks s' = locks s" "calls s' = calls s"
    by (simp_all add: e)
  have "W_bounds s'"
    using wellformedD(1) [OF w] by (simp add: W_bounds_def s')
  moreover have "W_locks s'"
    using wellformedD(2) [OF w] p by (simp add: W_locks_def s')
  moreover have "W_nolock s'"
    using wellformedD(3) [OF w] by (simp add: W_nolock_def s')
  moreover have "W_next s'"
    unfolding W_next_def s'
  proof (intro allI impI)
    fix n assume n: "n < length (calls s)"
    with wellformedD(4) [OF w] have x: "kind (heap s ! nextId (calls s ! n)) = Executor"
      and y: "settled (heap s ! nextId (calls s ! n))
                = (if finished (phase (calls s ! n)) then Fulfilled else Pending)"
      by (simp_all add: W_next_def)
    from x k have "nextId (calls s ! n) \<noteq> p" by auto
    with x y p show "kind (fulfil p (heap s) ! nextId (calls s ! n)) = Executor
        \<and> settled (fulfil p (heap s) ! nextId (calls s ! n))
            = (if finished (phase (calls s ! n)) then Fulfilled else Pending)"
      by simp
  qed
  moreover have "W_inj s'"
    using wellformedD(5) [OF w] by (simp add: W_inj_def s')
  moreover have "W_then s'"
    unfolding W_then_def s'
  proof (intro allI impI)
    fix q a' b' assume q: "q < length (fulfil p (heap s))"
      and kq: "kind (fulfil p (heap s) ! q) = Then a' b'"
    from q kq p have q': "q < length (heap s)" and kq': "kind (heap s ! q) = Then a' b'"
      by simp_all
    with wellformedD(6) [OF w] have o: "a' < q \<and> b' < q
      \<and> (settled (heap s ! q) = Fulfilled
           \<longrightarrow> settled (heap s ! a') = Fulfilled \<and> settled (heap s ! b') = Fulfilled)"
      unfolding W_then_def by blast
    show "a' < q \<and> b' < q
      \<and> (settled (fulfil p (heap s) ! q) = Fulfilled
           \<longrightarrow> settled (fulfil p (heap s) ! a') = Fulfilled
               \<and> settled (fulfil p (heap s) ! b') = Fulfilled)"
    proof (cases "q = p")
      case True
      with kq' k have "a' = a" "b' = b" by simp_all
      with o fa fb p show ?thesis by simp
    next
      case False
      with o p show ?thesis by simp
    qed
  qed
  moreover have "W_norej s'"
    using wellformedD(7) [OF w] p by (simp add: W_norej_def s')
  moreover have "W_resolved s'"
    using wellformedD(8) [OF w] p by (simp add: W_resolved_def s')
  moreover have "W_prev s'"
    using wellformedD(9) [OF w] p by (simp add: W_prev_def s')
  moreover have "W_started s'"
    using wellformedD(10) [OF w] p by (simp add: W_started_def s')
  ultimately show ?thesis by (simp add: wellformed_def)
qed

lemma wellformed_finish:
  assumes w: "wellformed s" and r: "finish n out s = Some s'"
  shows "wellformed s'"
proof -
  note e = finish_eff [OF w r]
  note n = e(1)
  let ?x = "nextId (calls s ! n)"
  from wellformedD(1) [OF w] n have x: "?x < length (heap s)"
    by (simp add: W_bounds_def)
  have s': "heap s' = fulfil ?x (heap s)" "locks s' = locks s"
    "calls s' = setPhase n (Done out) (calls s)"
    by (simp_all add: e(3))
  have "W_bounds s'"
    using wellformedD(1) [OF w] n by (simp add: W_bounds_def s')
  moreover have "W_locks s'"
    using wellformedD(2) [OF w] n x by (simp add: W_locks_def s')
  moreover have "W_nolock s'"
    using wellformedD(3) [OF w] n by (simp add: W_nolock_def s')
  moreover have "W_next s'"
    unfolding W_next_def s'
  proof (intro allI impI)
    fix m assume "m < length (setPhase n (Done out) (calls s))"
    then have m: "m < length (calls s)" by simp
    with wellformedD(4) [OF w] have a: "kind (heap s ! nextId (calls s ! m)) = Executor"
      and b: "settled (heap s ! nextId (calls s ! m))
                = (if finished (phase (calls s ! m)) then Fulfilled else Pending)"
      by (simp_all add: W_next_def)
    from wellformedD(5) [OF w] m n have "nextId (calls s ! m) = ?x \<longrightarrow> m = n"
      by (simp add: W_inj_def)
    with a b n x
    show "kind (fulfil ?x (heap s) ! nextId (setPhase n (Done out) (calls s) ! m)) = Executor
      \<and> settled (fulfil ?x (heap s) ! nextId (setPhase n (Done out) (calls s) ! m))
          = (if finished (phase (setPhase n (Done out) (calls s) ! m)) then Fulfilled else Pending)"
      by auto
  qed
  moreover have "W_inj s'"
    using wellformedD(5) [OF w] n by (simp add: W_inj_def s')
  moreover have "W_then s'"
    unfolding W_then_def s'
  proof (intro allI impI)
    fix q a b assume q: "q < length (fulfil ?x (heap s))"
      and kq: "kind (fulfil ?x (heap s) ! q) = Then a b"
    from q kq x have q': "q < length (heap s)" and kq': "kind (heap s ! q) = Then a b"
      by simp_all
    with wellformedD(6) [OF w] have o: "a < q \<and> b < q
      \<and> (settled (heap s ! q) = Fulfilled
           \<longrightarrow> settled (heap s ! a) = Fulfilled \<and> settled (heap s ! b) = Fulfilled)"
      unfolding W_then_def by blast
    from wellformedD(4) [OF w] n have "kind (heap s ! ?x) = Executor"
      by (simp add: W_next_def)
    with kq' have "q \<noteq> ?x" by auto
    with o x show "a < q \<and> b < q
      \<and> (settled (fulfil ?x (heap s) ! q) = Fulfilled
           \<longrightarrow> settled (fulfil ?x (heap s) ! a) = Fulfilled
               \<and> settled (fulfil ?x (heap s) ! b) = Fulfilled)"
      by simp
  qed
  moreover have "W_norej s'"
    using wellformedD(7) [OF w] x by (simp add: W_norej_def s')
  moreover have "W_resolved s'"
    using wellformedD(8) [OF w] x by (simp add: W_resolved_def s')
  moreover have "W_prev s'"
    using wellformedD(9) [OF w] n x by (simp add: W_prev_def s')
  moreover have "W_started s'"
    using wellformedD(10) [OF w] n x e(2) by (auto simp: W_started_def s')
  ultimately show ?thesis by (simp add: wellformed_def)
qed

lemma call_some:
  assumes "locks s (lockKeyOf u key) = Some p"
  shows "call u key s =
     s\<lparr>locks := (locks s)(lockKeyOf u key \<mapsto> Suc (length (heap s))),
       heap := heap s @ [\<lparr>kind = Executor, settled = Pending\<rparr>,
                         \<lparr>kind = Then p (length (heap s)), settled = Pending\<rparr>],
       calls := calls s @ [\<lparr>lockKey = lockKeyOf u key, prevId = p, nextId = length (heap s),
                            phase = AwaitingPrev\<rparr>]\<rparr>"
  using assms by (simp add: call_def Let_def)

lemma call_none:
  assumes "locks s (lockKeyOf u key) = None"
  shows "call u key s =
     s\<lparr>locks := (locks s)(lockKeyOf u key \<mapsto> Suc (Suc (length (heap s)))),
       heap := heap s @ [\<lparr>kind = Resolved, settled = Fulfilled\<rparr>,
                         \<lparr>kind = Executor, settled = Pending\<rparr>,
                         \<lparr>kind = Then (length (heap s)) (Suc (length (heap s))), settled = Pending\<rparr>],
       calls := calls s @ [\<lparr>lockKey = lockKeyOf u key, prevId = length (heap s),
                            nextId = Suc (length (heap s)), phase = AwaitingPrev\<rparr>]\<rparr>"
  using assms by (simp add: call_def Let_def)

text \<open>Appending promises and one call keeps what was known of the old ones.\<close>

lemma wellformed_extend:
  assumes w: "wellformed s"
    and h: "heap s' = heap s @ xs" and c: "calls s' = calls s @ [c0]"
    and l: "locks s' = (locks s)(lockKey c0 \<mapsto> length (heap s) + length xs - 1)"
    and xs: "xs \<noteq> []"
    and last_then: "kind (last xs) = Then (prevId c0) (nextId c0)" "settled (last xs) = Pending"
    and nx: "length (heap s) \<le> nextId c0" "nextId c0 < length (heap s) + length xs - 1"
      "kind (xs ! (nextId c0 - length (heap s))) = Executor"
      "settled (xs ! (nextId c0 - length (heap s))) = Pending"
    and pv: "prevId c0 < nextId c0"
    and ph: "phase c0 = AwaitingPrev"
    and new_ok: "\<forall>i < length xs. (\<forall>a b. kind (xs ! i) = Then a b \<longrightarrow> i = length xs - 1)
                   \<and> (\<forall>e. settled (xs ! i) \<noteq> Rejected e)
                   \<and> (kind (xs ! i) = Resolved \<longrightarrow> settled (xs ! i) = Fulfilled)"
    and pr: "(kind (heap s' ! prevId c0) = Resolved
               \<and> (\<forall>m < length (calls s). lockKey (calls s ! m) \<noteq> lockKey c0))
             \<or> (\<exists>m < length (calls s). lockKey (calls s ! m) = lockKey c0
                   \<and> kind (heap s' ! prevId c0)
                       = Then (prevId (calls s ! m)) (nextId (calls s ! m))
                   \<and> (\<forall>m' < length (calls s). lockKey (calls s ! m') = lockKey c0 \<longrightarrow> m' \<le> m))"
  shows "wellformed s'"
proof -
  let ?H = "length (heap s)" and ?C = "length (calls s)"
  have old_heap: "\<And>q. q < ?H \<Longrightarrow> heap s' ! q = heap s ! q"
    by (simp add: h nth_append)
  have new_heap: "\<And>q. ?H \<le> q \<Longrightarrow> heap s' ! q = xs ! (q - ?H)"
    by (simp add: h nth_append)
  have old_call: "\<And>n. n < ?C \<Longrightarrow> calls s' ! n = calls s ! n"
    by (simp add: c nth_append)
  have new_call: "calls s' ! ?C = c0"
    by (simp add: c)
  have lenH: "length (heap s') = ?H + length xs" and lenC: "length (calls s') = Suc ?C"
    by (simp_all add: h c)
  have bnd: "\<And>n. n < ?C \<Longrightarrow> prevId (calls s ! n) < ?H \<and> nextId (calls s ! n) < ?H"
    using wellformedD(1) [OF w] by (simp add: W_bounds_def)
  have lastx: "xs ! (length xs - 1) = last xs"
    using xs by (simp add: last_conv_nth)
  have top: "heap s' ! (?H + length xs - 1) = last xs"
  proof -
    from xs have "0 < length xs" by simp
    then have "?H \<le> ?H + length xs - 1" by linarith
    then have "heap s' ! (?H + length xs - 1) = xs ! (?H + length xs - 1 - ?H)"
      by (rule new_heap)
    moreover from \<open>0 < length xs\<close> have "?H + length xs - 1 - ?H = length xs - 1"
      by linarith
    ultimately show ?thesis using lastx by simp
  qed
  have nb: "prevId c0 < ?H + length xs" "nextId c0 < ?H + length xs"
    using nx pv by linarith+
  have "W_bounds s'"
    unfolding W_bounds_def lenC lenH
  proof (intro allI impI)
    fix n assume "n < Suc ?C"
    then consider "n < ?C" | "n = ?C" by linarith
    then show "prevId (calls s' ! n) < ?H + length xs \<and> nextId (calls s' ! n) < ?H + length xs"
    proof cases
      case 1
      with bnd [of n] old_call [of n] show ?thesis by simp
    next
      case 2
      with new_call nb show ?thesis by simp
    qed
  qed
  moreover have "W_locks s'"
    unfolding W_locks_def
  proof (intro allI impI)
    fix k p assume lk: "locks s' k = Some p"
    show "p < length (heap s')
      \<and> (\<exists>n < length (calls s').
            kind (heap s' ! p) = Then (prevId (calls s' ! n)) (nextId (calls s' ! n))
            \<and> lockKey (calls s' ! n) = k
            \<and> (\<forall>m < length (calls s'). lockKey (calls s' ! m) = k \<longrightarrow> m \<le> n))"
    proof (cases "k = lockKey c0")
      case True
      with lk l have p: "p = ?H + length xs - 1" by simp
      have "kind (heap s' ! p) = Then (prevId (calls s' ! ?C)) (nextId (calls s' ! ?C))
            \<and> lockKey (calls s' ! ?C) = k
            \<and> (\<forall>m < length (calls s'). lockKey (calls s' ! m) = k \<longrightarrow> m \<le> ?C)"
        using True p top last_then new_call lenC by simp
      moreover have "p < length (heap s')" using p xs lenH by (cases xs) simp_all
      moreover have "?C < length (calls s')" using lenC by simp
      ultimately show ?thesis by (intro conjI exI [of _ ?C]) simp_all
    next
      case False
      with lk l have "locks s k = Some p" by simp
      with wellformedD(2) [OF w] obtain n where pH: "p < ?H" and n: "n < ?C"
        and kn: "kind (heap s ! p) = Then (prevId (calls s ! n)) (nextId (calls s ! n))"
        and ln: "lockKey (calls s ! n) = k"
        and mx: "\<forall>m < ?C. lockKey (calls s ! m) = k \<longrightarrow> m \<le> n"
        unfolding W_locks_def by blast
      have "\<forall>m < length (calls s'). lockKey (calls s' ! m) = k \<longrightarrow> m \<le> n"
      proof (intro allI impI)
        fix m assume m: "m < length (calls s')" and km: "lockKey (calls s' ! m) = k"
        from m lenC consider "m < ?C" | "m = ?C" by linarith
        then show "m \<le> n"
        proof cases
          case 1
          with km old_call [of m] mx show ?thesis by simp
        next
          case 2
          with km new_call False show ?thesis by simp
        qed
      qed
      with pH n kn ln old_heap [OF pH] old_call [OF n] lenH lenC show ?thesis
        by (intro conjI exI [of _ n]) simp_all
    qed
  qed
  moreover have "W_nolock s'"
    unfolding W_nolock_def
  proof (intro allI impI)
    fix k n assume lk: "locks s' k = None" and n: "n < length (calls s')"
    from lk l have ne: "k \<noteq> lockKey c0" and "locks s k = None"
      by (auto split: if_splits)
    with wellformedD(3) [OF w] have o: "\<forall>n < ?C. lockKey (calls s ! n) \<noteq> k"
      by (simp add: W_nolock_def)
    from n lenC consider "n < ?C" | "n = ?C" by linarith
    then show "lockKey (calls s' ! n) \<noteq> k"
    proof cases
      case 1
      with o old_call [of n] show ?thesis by simp
    next
      case 2
      with new_call ne show ?thesis by simp
    qed
  qed
  moreover have "W_next s'"
    unfolding W_next_def lenC
  proof (intro allI impI)
    fix n assume "n < Suc ?C"
    then consider "n < ?C" | "n = ?C" by linarith
    then show "kind (heap s' ! nextId (calls s' ! n)) = Executor
      \<and> settled (heap s' ! nextId (calls s' ! n))
          = (if finished (phase (calls s' ! n)) then Fulfilled else Pending)"
    proof cases
      case 1
      with wellformedD(4) [OF w] bnd [of n] old_call [of n] old_heap [of "nextId (calls s ! n)"]
      show ?thesis by (simp add: W_next_def)
    next
      case 2
      with new_call nx new_heap [of "nextId c0"] ph show ?thesis by simp
    qed
  qed
  moreover have "W_inj s'"
    unfolding W_inj_def lenC
  proof (intro allI impI)
    fix m n assume "m < Suc ?C" "n < Suc ?C"
      and e: "nextId (calls s' ! m) = nextId (calls s' ! n)"
    then consider "m < ?C" "n < ?C" | "m = ?C" "n = ?C" | "m < ?C" "n = ?C" | "m = ?C" "n < ?C"
      by linarith
    then show "m = n"
    proof cases
      case 1
      with wellformedD(5) [OF w] e old_call [of m] old_call [of n] show ?thesis
        by (simp add: W_inj_def)
    next
      case 2
      then show ?thesis by simp
    next
      case 3
      from 3 bnd [of m] nx have "nextId (calls s ! m) \<noteq> nextId c0" by linarith
      with 3 e old_call [of m] new_call show ?thesis by simp
    next
      case 4
      from 4 bnd [of n] nx have "nextId (calls s ! n) \<noteq> nextId c0" by linarith
      with 4 e old_call [of n] new_call show ?thesis by simp
    qed
  qed
  moreover have "W_then s'"
    unfolding W_then_def lenH
  proof (intro allI impI)
    fix q a b assume q: "q < ?H + length xs" and k: "kind (heap s' ! q) = Then a b"
    show "a < q \<and> b < q
      \<and> (settled (heap s' ! q) = Fulfilled
           \<longrightarrow> settled (heap s' ! a) = Fulfilled \<and> settled (heap s' ! b) = Fulfilled)"
    proof (cases "q < ?H")
      case True
      with k old_heap [of q] wellformedD(6) [OF w] have o: "a < q \<and> b < q
        \<and> (settled (heap s ! q) = Fulfilled
           \<longrightarrow> settled (heap s ! a) = Fulfilled \<and> settled (heap s ! b) = Fulfilled)"
        unfolding W_then_def by simp
      with True old_heap [of q] old_heap [of a] old_heap [of b] show ?thesis by simp
    next
      case False
      with q new_ok k new_heap [of q] have "q - ?H = length xs - 1"
        by simp
      with False q have qe: "q = ?H + length xs - 1" by simp
      with top k last_then have "a = prevId c0" "b = nextId c0" "settled (heap s' ! q) = Pending"
        by simp_all
      moreover from qe nx pv have "prevId c0 < q" "nextId c0 < q" by linarith+
      ultimately show ?thesis by simp
    qed
  qed
  moreover have "W_norej s'"
    unfolding W_norej_def lenH
  proof (intro allI impI)
    fix q e assume q: "q < ?H + length xs"
    show "settled (heap s' ! q) \<noteq> Rejected e"
    proof (cases "q < ?H")
      case True
      with wellformedD(7) [OF w] old_heap [of q] show ?thesis by (simp add: W_norej_def)
    next
      case False
      with q new_ok new_heap [of q] show ?thesis by simp
    qed
  qed
  moreover have "W_resolved s'"
    unfolding W_resolved_def lenH
  proof (intro allI impI)
    fix q assume q: "q < ?H + length xs" and k: "kind (heap s' ! q) = Resolved"
    show "settled (heap s' ! q) = Fulfilled"
    proof (cases "q < ?H")
      case True
      with wellformedD(8) [OF w] old_heap [of q] k show ?thesis by (simp add: W_resolved_def)
    next
      case False
      with q k new_ok new_heap [of q] show ?thesis by simp
    qed
  qed
  moreover have "W_prev s'"
    unfolding W_prev_def lenC
  proof (intro allI impI)
    fix n assume "n < Suc ?C"
    then consider "n < ?C" | "n = ?C" by linarith
    then show "(kind (heap s' ! prevId (calls s' ! n)) = Resolved
         \<and> (\<forall>m < n. lockKey (calls s' ! m) \<noteq> lockKey (calls s' ! n)))
      \<or> (\<exists>m < n. lockKey (calls s' ! m) = lockKey (calls s' ! n)
            \<and> kind (heap s' ! prevId (calls s' ! n))
                = Then (prevId (calls s' ! m)) (nextId (calls s' ! m))
            \<and> (\<forall>m' < n. lockKey (calls s' ! m') = lockKey (calls s' ! n) \<longrightarrow> m' \<le> m))"
    proof cases
      case 1
      from wellformedD(9) [OF w] 1 have o: "(kind (heap s ! prevId (calls s ! n)) = Resolved
         \<and> (\<forall>m < n. lockKey (calls s ! m) \<noteq> lockKey (calls s ! n)))
      \<or> (\<exists>m < n. lockKey (calls s ! m) = lockKey (calls s ! n)
            \<and> kind (heap s ! prevId (calls s ! n))
                = Then (prevId (calls s ! m)) (nextId (calls s ! m))
            \<and> (\<forall>m' < n. lockKey (calls s ! m') = lockKey (calls s ! n) \<longrightarrow> m' \<le> m))"
        by (simp add: W_prev_def)
      have oc: "\<And>m. m \<le> n \<Longrightarrow> calls s' ! m = calls s ! m"
        using 1 old_call by simp
      have oh: "heap s' ! prevId (calls s ! n) = heap s ! prevId (calls s ! n)"
        using bnd [OF 1] old_heap by simp
      from o show ?thesis
      proof
        assume "kind (heap s ! prevId (calls s ! n)) = Resolved
         \<and> (\<forall>m < n. lockKey (calls s ! m) \<noteq> lockKey (calls s ! n))"
        then show ?thesis using oc oh by simp
      next
        assume "\<exists>m < n. lockKey (calls s ! m) = lockKey (calls s ! n)
            \<and> kind (heap s ! prevId (calls s ! n))
                = Then (prevId (calls s ! m)) (nextId (calls s ! m))
            \<and> (\<forall>m' < n. lockKey (calls s ! m') = lockKey (calls s ! n) \<longrightarrow> m' \<le> m)"
        then obtain m where "m < n" "lockKey (calls s ! m) = lockKey (calls s ! n)"
            "kind (heap s ! prevId (calls s ! n))
                = Then (prevId (calls s ! m)) (nextId (calls s ! m))"
            "\<forall>m' < n. lockKey (calls s ! m') = lockKey (calls s ! n) \<longrightarrow> m' \<le> m"
          by blast
        then have "m < n \<and> lockKey (calls s' ! m) = lockKey (calls s' ! n)
            \<and> kind (heap s' ! prevId (calls s' ! n))
                = Then (prevId (calls s' ! m)) (nextId (calls s' ! m))
            \<and> (\<forall>m' < n. lockKey (calls s' ! m') = lockKey (calls s' ! n) \<longrightarrow> m' \<le> m)"
          using oc oh by simp
        then show ?thesis by blast
      qed
    next
      case 2
      have oc: "\<And>m. m < ?C \<Longrightarrow> calls s' ! m = calls s ! m"
        using old_call by simp
      from pr show ?thesis
      proof
        assume "kind (heap s' ! prevId c0) = Resolved
               \<and> (\<forall>m < length (calls s). lockKey (calls s ! m) \<noteq> lockKey c0)"
        then show ?thesis using 2 new_call oc by simp
      next
        assume "\<exists>m < length (calls s). lockKey (calls s ! m) = lockKey c0
                   \<and> kind (heap s' ! prevId c0)
                       = Then (prevId (calls s ! m)) (nextId (calls s ! m))
                   \<and> (\<forall>m' < length (calls s). lockKey (calls s ! m') = lockKey c0 \<longrightarrow> m' \<le> m)"
        then obtain m where "m < ?C" "lockKey (calls s ! m) = lockKey c0"
          "kind (heap s' ! prevId c0) = Then (prevId (calls s ! m)) (nextId (calls s ! m))"
          "\<forall>m' < ?C. lockKey (calls s ! m') = lockKey c0 \<longrightarrow> m' \<le> m"
          by blast
        then have "m < n \<and> lockKey (calls s' ! m) = lockKey (calls s' ! n)
            \<and> kind (heap s' ! prevId (calls s' ! n))
                = Then (prevId (calls s' ! m)) (nextId (calls s' ! m))
            \<and> (\<forall>m' < n. lockKey (calls s' ! m') = lockKey (calls s' ! n) \<longrightarrow> m' \<le> m)"
          using 2 new_call oc by simp
        then show ?thesis by blast
      qed
    qed
  qed
  moreover have "W_started s'"
    unfolding W_started_def lenC
  proof (intro allI impI)
    fix n assume "n < Suc ?C" and p: "phase (calls s' ! n) \<noteq> AwaitingPrev"
    then consider "n < ?C" | "n = ?C" by linarith
    then show "settled (heap s' ! prevId (calls s' ! n)) = Fulfilled"
    proof cases
      case 1
      with wellformedD(10) [OF w] p bnd [of n] old_call [of n] old_heap [of "prevId (calls s ! n)"]
      show ?thesis by (simp add: W_started_def)
    next
      case 2
      with p new_call ph show ?thesis by simp
    qed
  qed
  ultimately show ?thesis by (simp add: wellformed_def)
qed

lemma wellformed_call:
  assumes w: "wellformed s"
  shows "wellformed (call u key s)"
proof (cases "locks s (lockKeyOf u key)")
  case None
  let ?k = "lockKeyOf u key" and ?H = "length (heap s)"
  let ?c0 = "\<lparr>lockKey = ?k, prevId = ?H, nextId = Suc ?H, phase = AwaitingPrev\<rparr> :: 'a invocation"
  let ?xs = "[\<lparr>kind = Resolved, settled = Fulfilled\<rparr>, \<lparr>kind = Executor, settled = Pending\<rparr>,
              \<lparr>kind = Then ?H (Suc ?H), settled = Pending\<rparr>]"
  note e = call_none [OF None]
  from wellformedD(3) [OF w] None have no: "\<forall>m < length (calls s). lockKey (calls s ! m) \<noteq> ?k"
    by (simp add: W_nolock_def)
  show ?thesis
  proof (rule wellformed_extend [OF w, where xs = ?xs and ?c0.0 = ?c0])
    show "heap (call u key s) = heap s @ ?xs" by (simp add: e)
    show "calls (call u key s) = calls s @ [?c0]" by (simp add: e)
    show "locks (call u key s) = (locks s)(lockKey ?c0 \<mapsto> ?H + length ?xs - 1)"
      by (simp add: e)
    show "\<forall>i < length ?xs. (\<forall>a b. kind (?xs ! i) = Then a b \<longrightarrow> i = length ?xs - 1)
                   \<and> (\<forall>e. settled (?xs ! i) \<noteq> Rejected e)
                   \<and> (kind (?xs ! i) = Resolved \<longrightarrow> settled (?xs ! i) = Fulfilled)"
      by (simp add: less_Suc_eq nth_Cons split: nat.splits)
    show "(kind (heap (call u key s) ! prevId ?c0) = Resolved
               \<and> (\<forall>m < length (calls s). lockKey (calls s ! m) \<noteq> lockKey ?c0))
             \<or> (\<exists>m < length (calls s). lockKey (calls s ! m) = lockKey ?c0
                   \<and> kind (heap (call u key s) ! prevId ?c0)
                       = Then (prevId (calls s ! m)) (nextId (calls s ! m))
                   \<and> (\<forall>m' < length (calls s). lockKey (calls s ! m') = lockKey ?c0 \<longrightarrow> m' \<le> m))"
      using no by (simp add: e)
  qed simp_all
next
  case (Some p)
  let ?k = "lockKeyOf u key" and ?H = "length (heap s)"
  let ?c0 = "\<lparr>lockKey = ?k, prevId = p, nextId = ?H, phase = AwaitingPrev\<rparr> :: 'a invocation"
  let ?xs = "[\<lparr>kind = Executor, settled = Pending\<rparr>, \<lparr>kind = Then p ?H, settled = Pending\<rparr>]"
  note e = call_some [OF Some]
  from wellformedD(2) [OF w] Some obtain n where pH: "p < ?H" and n: "n < length (calls s)"
    and kn: "kind (heap s ! p) = Then (prevId (calls s ! n)) (nextId (calls s ! n))"
    and ln: "lockKey (calls s ! n) = ?k"
    and mx: "\<forall>m < length (calls s). lockKey (calls s ! m) = ?k \<longrightarrow> m \<le> n"
    unfolding W_locks_def by blast
  show ?thesis
  proof (rule wellformed_extend [OF w, where xs = ?xs and ?c0.0 = ?c0])
    show "heap (call u key s) = heap s @ ?xs" by (simp add: e)
    show "calls (call u key s) = calls s @ [?c0]" by (simp add: e)
    show "locks (call u key s) = (locks s)(lockKey ?c0 \<mapsto> ?H + length ?xs - 1)"
      by (simp add: e)
    show "\<forall>i < length ?xs. (\<forall>a b. kind (?xs ! i) = Then a b \<longrightarrow> i = length ?xs - 1)
                   \<and> (\<forall>e. settled (?xs ! i) \<noteq> Rejected e)
                   \<and> (kind (?xs ! i) = Resolved \<longrightarrow> settled (?xs ! i) = Fulfilled)"
      by (simp add: less_Suc_eq nth_Cons split: nat.splits)
    show "prevId ?c0 < nextId ?c0" using pH by simp
    have "\<exists>m < length (calls s). lockKey (calls s ! m) = lockKey ?c0
                   \<and> kind (heap (call u key s) ! prevId ?c0)
                       = Then (prevId (calls s ! m)) (nextId (calls s ! m))
                   \<and> (\<forall>m' < length (calls s). lockKey (calls s ! m') = lockKey ?c0 \<longrightarrow> m' \<le> m)"
      using n kn ln mx pH by (intro exI [of _ n]) (simp add: e nth_append)
    then show "(kind (heap (call u key s) ! prevId ?c0) = Resolved
               \<and> (\<forall>m < length (calls s). lockKey (calls s ! m) \<noteq> lockKey ?c0))
             \<or> (\<exists>m < length (calls s). lockKey (calls s ! m) = lockKey ?c0
                   \<and> kind (heap (call u key s) ! prevId ?c0)
                       = Then (prevId (calls s ! m)) (nextId (calls s ! m))
                   \<and> (\<forall>m' < length (calls s). lockKey (calls s ! m') = lockKey ?c0 \<longrightarrow> m' \<le> m))"
      by (rule disjI2)
  qed simp_all
qed

lemma wellformed_initial: "wellformed initial"
  by (simp add: wellformed_def initial_def W_bounds_def W_locks_def W_nolock_def W_next_def W_inj_def
      W_then_def W_norej_def W_resolved_def W_prev_def W_started_def)

lemma wellformed_step: "wellformed s \<Longrightarrow> step e s = Some s' \<Longrightarrow> wellformed s'"
proof (cases e)
  case (Call u key)
  assume "wellformed s" "step e s = Some s'"
  with Call wellformed_call [of s u key] show ?thesis by simp
next
  case (Resume n)
  assume "wellformed s" "step e s = Some s'"
  with Resume wellformed_resume [of s n s'] show ?thesis by simp
next
  case (Finish n out)
  assume "wellformed s" "step e s = Some s'"
  with Finish wellformed_finish [of s n out s'] show ?thesis by simp
next
  case (Settle p)
  assume "wellformed s" "step e s = Some s'"
  with Settle wellformed_settle [of s p s'] show ?thesis by simp
qed

lemma wellformed_run: "wellformed s \<Longrightarrow> run es s = Some s' \<Longrightarrow> wellformed s'"
proof (induction es arbitrary: s)
  case Nil
  then show ?case by simp
next
  case (Cons e es)
  from Cons.prems(2) obtain s1 where s1: "step e s = Some s1" and r: "run es s1 = Some s'"
    by (auto split: option.splits)
  from wellformed_step [OF Cons.prems(1) s1] r show ?case by (rule Cons.IH)
qed

lemma wellformed_reached: "run es initial = Some s \<Longrightarrow> wellformed s"
  using wellformed_initial by (rule wellformed_run)

text \<open>Once \<open>prev\<close> of a call is fulfilled, every earlier call with its lock key is over.\<close>

lemma earlier_done:
  assumes w: "wellformed s"
  shows "n < length (calls s) \<Longrightarrow> settled (heap s ! prevId (calls s ! n)) = Fulfilled
           \<Longrightarrow> m < n \<Longrightarrow> lockKey (calls s ! m) = lockKey (calls s ! n)
           \<Longrightarrow> finished (phase (calls s ! m))"
proof (induction n arbitrary: m rule: less_induct)
  case (less n)
  from wellformedD(9) [OF w] less.prems(1)
  have "(kind (heap s ! prevId (calls s ! n)) = Resolved
         \<and> (\<forall>m < n. lockKey (calls s ! m) \<noteq> lockKey (calls s ! n)))
      \<or> (\<exists>m < n. lockKey (calls s ! m) = lockKey (calls s ! n)
            \<and> kind (heap s ! prevId (calls s ! n))
                = Then (prevId (calls s ! m)) (nextId (calls s ! m))
            \<and> (\<forall>m' < n. lockKey (calls s ! m') = lockKey (calls s ! n) \<longrightarrow> m' \<le> m))"
    by (simp add: W_prev_def)
  then show ?case
  proof
    assume "kind (heap s ! prevId (calls s ! n)) = Resolved
         \<and> (\<forall>m < n. lockKey (calls s ! m) \<noteq> lockKey (calls s ! n))"
    with less.prems(3,4) show ?thesis by simp
  next
    assume "\<exists>m < n. lockKey (calls s ! m) = lockKey (calls s ! n)
            \<and> kind (heap s ! prevId (calls s ! n))
                = Then (prevId (calls s ! m)) (nextId (calls s ! m))
            \<and> (\<forall>m' < n. lockKey (calls s ! m') = lockKey (calls s ! n) \<longrightarrow> m' \<le> m)"
    then obtain l where l: "l < n" and kl: "lockKey (calls s ! l) = lockKey (calls s ! n)"
      and th: "kind (heap s ! prevId (calls s ! n))
                = Then (prevId (calls s ! l)) (nextId (calls s ! l))"
      and mx: "\<forall>m' < n. lockKey (calls s ! m') = lockKey (calls s ! n) \<longrightarrow> m' \<le> l"
      by blast
    from l less.prems(1) have lC: "l < length (calls s)" by simp
    from wellformedD(1) [OF w] less.prems(1) have "prevId (calls s ! n) < length (heap s)"
      by (simp add: W_bounds_def)
    with wellformedD(6) [OF w] th less.prems(2)
    have fp: "settled (heap s ! prevId (calls s ! l)) = Fulfilled"
      and fn: "settled (heap s ! nextId (calls s ! l)) = Fulfilled"
      unfolding W_then_def by blast+
    from wellformedD(4) [OF w] lC fn have dl: "finished (phase (calls s ! l))"
      by (auto simp: W_next_def split: if_splits)
    from mx less.prems(3,4) have "m \<le> l" by simp
    show ?thesis
    proof (cases "m = l")
      case True
      with dl show ?thesis by simp
    next
      case False
      with \<open>m \<le> l\<close> have "m < l" by simp
      moreover from kl less.prems(4) have "lockKey (calls s ! m) = lockKey (calls s ! l)"
        by simp
      ultimately show ?thesis
        using less.IH [OF l lC fp] by blast
    qed
  qed
qed

lemma started_after_earlier_done:
  assumes "run es initial = Some s" and "n < length (calls s)"
    and "phase (calls s ! n) \<noteq> AwaitingPrev"
    and "m < n" and "lockKey (calls s ! m) = lockKey (calls s ! n)"
  shows "finished (phase (calls s ! m))"
proof -
  from wellformed_reached [OF assms(1)] have w: "wellformed s" .
  from wellformedD(10) [OF w] assms(2,3) have "settled (heap s ! prevId (calls s ! n)) = Fulfilled"
    by (simp add: W_started_def)
  from earlier_done [OF w assms(2) this assms(4,5)] show ?thesis .
qed

lemma lockKeyOf_eq: "lockKeyOf u k = effectiveName u @ '':'' @ k"
  by (simp add: lockKeyOf_def effectiveName_def)

lemma lockKeyOf_same_key: "lockKeyOf u1 k = lockKeyOf u2 k \<longleftrightarrow> effectiveName u1 = effectiveName u2"
  by (simp add: lockKeyOf_eq)

lemma lockKeyOf_same_bot: "lockKeyOf u k1 = lockKeyOf u k2 \<longleftrightarrow> k1 = k2"
  by (simp add: lockKeyOf_eq)

text \<open>Two calls under different lock keys, each resumed at once, in either order.\<close>

lemma two_calls:
  "run [Call u1 k1, Call u2 k2] initial =
     Some \<lparr>locks = (if lockKeyOf u1 k1 = lockKeyOf u2 k2
                    then [lockKeyOf u1 k1 \<mapsto> 4]
                    else [lockKeyOf u1 k1 \<mapsto> 2, lockKeyOf u2 k2 \<mapsto> 5]),
           heap = (if lockKeyOf u1 k1 = lockKeyOf u2 k2
                   then [\<lparr>kind = Resolved, settled = Fulfilled\<rparr>,
                         \<lparr>kind = Executor, settled = Pending\<rparr>,
                         \<lparr>kind = Then 0 1, settled = Pending\<rparr>,
                         \<lparr>kind = Executor, settled = Pending\<rparr>,
                         \<lparr>kind = Then 2 3, settled = Pending\<rparr>]
                   else [\<lparr>kind = Resolved, settled = Fulfilled\<rparr>,
                         \<lparr>kind = Executor, settled = Pending\<rparr>,
                         \<lparr>kind = Then 0 1, settled = Pending\<rparr>,
                         \<lparr>kind = Resolved, settled = Fulfilled\<rparr>,
                         \<lparr>kind = Executor, settled = Pending\<rparr>,
                         \<lparr>kind = Then 3 4, settled = Pending\<rparr>]),
           calls = [\<lparr>lockKey = lockKeyOf u1 k1, prevId = 0, nextId = 1, phase = AwaitingPrev\<rparr>,
                    \<lparr>lockKey = lockKeyOf u2 k2,
                     prevId = (if lockKeyOf u1 k1 = lockKeyOf u2 k2 then 2 else 3),
                     nextId = (if lockKeyOf u1 k1 = lockKeyOf u2 k2 then 3 else 4),
                     phase = AwaitingPrev\<rparr>]\<rparr>"
  by (simp add: call_def initial_def Let_def eval_nat_numeral)

lemma overlap_distinct:
  assumes "lockKeyOf u1 k1 \<noteq> lockKeyOf u2 k2"
  shows "\<exists>s. run [Call u1 k1, Call u2 k2, Resume 0, Resume 1] initial = Some s
            \<and> phase (calls s ! 0) = Running \<and> phase (calls s ! 1) = Running"
    and "\<exists>s. run [Call u1 k1, Call u2 k2, Resume 1, Resume 0] initial = Some s
            \<and> phase (calls s ! 0) = Running \<and> phase (calls s ! 1) = Running"
proof -
  have a: "run [Call u1 k1, Call u2 k2, Resume 0, Resume 1] initial
             = (case run [Call u1 k1, Call u2 k2] initial of None \<Rightarrow> None
                | Some s \<Rightarrow> run [Resume 0, Resume 1] s)"
    and b: "run [Call u1 k1, Call u2 k2, Resume 1, Resume 0] initial
             = (case run [Call u1 k1, Call u2 k2] initial of None \<Rightarrow> None
                | Some s \<Rightarrow> run [Resume 1, Resume 0] s)"
    by simp_all
  show "\<exists>s. run [Call u1 k1, Call u2 k2, Resume 0, Resume 1] initial = Some s
            \<and> phase (calls s ! 0) = Running \<and> phase (calls s ! 1) = Running"
    unfolding a two_calls using assms by (simp add: resume_def)
  show "\<exists>s. run [Call u1 k1, Call u2 k2, Resume 1, Resume 0] initial = Some s
            \<and> phase (calls s ! 0) = Running \<and> phase (calls s ! 1) = Running"
    unfolding b two_calls using assms by (simp add: resume_def)
qed

lemma serialized_same:
  assumes "lockKeyOf u1 k1 = lockKeyOf u2 k2"
  shows "run [Call u1 k1, Call u2 k2, Resume 0, Resume 1] initial = None"
    and "run [Call u1 k1, Call u2 k2, Resume 1] initial = None"
proof -
  have a: "run [Call u1 k1, Call u2 k2, Resume 0, Resume 1] initial
             = (case run [Call u1 k1, Call u2 k2] initial of None \<Rightarrow> None
                | Some s \<Rightarrow> run [Resume 0, Resume 1] s)"
    and b: "run [Call u1 k1, Call u2 k2, Resume 1] initial
             = (case run [Call u1 k1, Call u2 k2] initial of None \<Rightarrow> None
                | Some s \<Rightarrow> run [Resume 1] s)"
    by simp_all
  show "run [Call u1 k1, Call u2 k2, Resume 0, Resume 1] initial = None"
    unfolding a two_calls using assms by (simp add: resume_def)
  show "run [Call u1 k1, Call u2 k2, Resume 1] initial = None"
    unfolding b two_calls using assms by (simp add: resume_def)
qed

lemma lockKey_update_phase: "map lockKey (cs[n := (cs ! n)\<lparr>phase := ph\<rparr>]) = map lockKey cs"
proof (cases "n < length cs")
  case True
  have "map lockKey (cs[n := (cs ! n)\<lparr>phase := ph\<rparr>]) = (map lockKey cs)[n := lockKey (cs ! n)]"
    by (simp add: map_update)
  also from True have "lockKey (cs ! n) = map lockKey cs ! n"
    by simp
  finally show ?thesis
    by (simp only: list_update_id)
next
  case False
  then have "cs[n := (cs ! n)\<lparr>phase := ph\<rparr>] = cs"
    by (intro list_update_beyond) simp
  then show ?thesis by (simp only:)
qed

lemma step_lockKeys:
  assumes "step e s = Some s'"
  shows "map lockKey (calls s') = map lockKey (calls s) @ submitted [e]"
proof (cases e)
  case (Call u key)
  with assms show ?thesis
    by (auto simp: call_def Let_def split: option.splits)
next
  case (Resume n)
  with assms show ?thesis
    by (auto simp: resume_def leave_def Let_def lockKey_update_phase split: if_splits pstate.splits)
next
  case (Finish n out)
  with assms show ?thesis
    by (auto simp: finish_def leave_def Let_def lockKey_update_phase split: if_splits)
next
  case (Settle p)
  with assms show ?thesis
    by (auto simp: settle_def split: if_splits pkind.splits pstate.splits)
qed

lemma submitted_Cons: "submitted (e # es) = submitted [e] @ submitted es"
  by (cases e) simp_all

lemma run_lockKeys:
  "run es s = Some s' \<Longrightarrow> map lockKey (calls s') = map lockKey (calls s) @ submitted es"
proof (induction es arbitrary: s)
  case Nil
  then show ?case by simp
next
  case (Cons e es)
  from Cons.prems obtain s1 where s1: "step e s = Some s1" and r: "run es s1 = Some s'"
    by (auto split: option.splits)
  from Cons.IH [OF r] step_lockKeys [OF s1] show ?case
    by (simp add: submitted_Cons [of e es])
qed

lemma calls_as_submitted: "run es initial = Some s \<Longrightarrow> map lockKey (calls s) = submitted es"
  using run_lockKeys [of es initial s] by (simp add: initial_def)

text \<open>
  C1. In every state the system reaches, the calls made are those submitted, in the order
  of their submission; of two calls with the same lock key (the same key, submitted by
  the same bot) the later has not been resumed unless the earlier is over; so the two are
  never running together, and the calls of one lock key run in the order of their
  submission. Calls under distinct keys are not ordered: two such calls can both be
  running, whichever was resumed first.
\<close>
theorem runExclusive_exclusive_fifo:
  "(run es initial = Some s \<longrightarrow>
      map lockKey (calls s) = submitted es
      \<and> (\<forall>m n. m < n \<and> n < length (calls s) \<and> lockKey (calls s ! m) = lockKey (calls s ! n) \<longrightarrow>
           (phase (calls s ! n) \<noteq> AwaitingPrev \<longrightarrow> finished (phase (calls s ! m)))
           \<and> \<not> (phase (calls s ! m) = Running \<and> phase (calls s ! n) = Running)))
   \<and> (k1 \<noteq> k2 \<longrightarrow>
        (\<exists>s. run [Call u k1, Call u k2, Resume 0, Resume 1] initial = Some (s :: 'a mutex)
              \<and> phase (calls s ! 0) = Running \<and> phase (calls s ! 1) = Running)
        \<and> (\<exists>s. run [Call u k1, Call u k2, Resume 1, Resume 0] initial = Some (s :: 'a mutex)
              \<and> phase (calls s ! 0) = Running \<and> phase (calls s ! 1) = Running))"
proof (intro conjI impI allI)
  assume r: "run es initial = Some s"
  then show "map lockKey (calls s) = submitted es"
    by (rule calls_as_submitted)
next
  fix m n
  assume r: "run es initial = Some s"
    and h: "m < n \<and> n < length (calls s) \<and> lockKey (calls s ! m) = lockKey (calls s ! n)"
  show "finished (phase (calls s ! m))" if "phase (calls s ! n) \<noteq> AwaitingPrev"
    using started_after_earlier_done [OF r _ that] h by blast
  then show "\<not> (phase (calls s ! m) = Running \<and> phase (calls s ! n) = Running)"
    by auto
next
  assume "k1 \<noteq> k2"
  then have d: "lockKeyOf u k1 \<noteq> lockKeyOf u k2"
    by (simp add: lockKeyOf_same_bot)
  from overlap_distinct(1) [OF d]
  show "\<exists>s. run [Call u k1, Call u k2, Resume 0, Resume 1] initial = Some (s :: 'a mutex)
              \<and> phase (calls s ! 0) = Running \<and> phase (calls s ! 1) = Running" .
  from overlap_distinct(2) [OF d]
  show "\<exists>s. run [Call u k1, Call u k2, Resume 1, Resume 0] initial = Some (s :: 'a mutex)
              \<and> phase (calls s ! 0) = Running \<and> phase (calls s ! 1) = Running" .
qed

lemmas run_defs = call_def initial_def Let_def resume_def finish_def leave_def resolveNext_def
  settle_def lockKeyOf_def eval_nat_numeral

theorem runExclusive_exclusive_fifo_witness:
  "\<exists>s :: nat mutex.
     run [Call (Some ''Steve'') ''container'', Call (Some ''Steve'') ''container'',
          Resume 0, Finish 0 (Returned 7), Settle 2, Resume 1] initial = Some s
     \<and> map lockKey (calls s) = [''Steve:container'', ''Steve:container'']
     \<and> phase (calls s ! 1) = Running \<and> finished (phase (calls s ! 0))
     \<and> \<not> (phase (calls s ! 0) = Running \<and> phase (calls s ! 1) = Running)"
proof -
  let ?es = "[Call (Some ''Steve'') ''container'', Call (Some ''Steve'') ''container'',
          Resume 0, Finish 0 (Returned 7), Settle 2, Resume 1] :: nat event list"
  have "\<exists>s. run ?es initial = Some s \<and> length (calls s) = 2
          \<and> lockKey (calls s ! 0) = lockKey (calls s ! 1) \<and> phase (calls s ! 1) = Running"
    by (simp add: run_defs)
  then obtain s where r: "run ?es initial = Some s" and l: "(0::nat) < 1 \<and> 1 < length (calls s)
          \<and> lockKey (calls s ! 0) = lockKey (calls s ! 1)" and p: "phase (calls s ! 1) = Running"
    by auto
  note main = runExclusive_exclusive_fifo [of ?es s "''container''" "''furnace''" "Some ''Steve''",
      THEN conjunct1, THEN mp, OF r]
  from main [THEN conjunct1]
  have k: "map lockKey (calls s) = [''Steve:container'', ''Steve:container'']"
    by (simp add: lockKeyOf_def)
  from p have "phase (calls s ! 1) \<noteq> AwaitingPrev"
    by simp
  with main [THEN conjunct2, rule_format, OF l]
  have "finished (phase (calls s ! 0))
        \<and> \<not> (phase (calls s ! 0) = Running \<and> phase (calls s ! 1) = Running)"
    by blast
  with r k p show ?thesis
    by (intro exI [of _ s] conjI) simp_all
qed

text \<open>The entry of a lock key, once made, stays: \<open>finally\<close> never finds \<open>next\<close> in the map.\<close>

lemma locks_never_removed:
  assumes "run es initial = Some s" and "n < length (calls s)"
  shows "locks s (lockKey (calls s ! n)) \<noteq> None"
proof -
  from wellformed_reached [OF assms(1)] have "W_nolock s" by (rule wellformedD(3))
  with assms(2) show ?thesis by (auto simp: W_nolock_def)
qed

text \<open>
  C3. A single call under the key \<open>container\<close> by the bot \<open>Steve\<close> that has returned, with
  nothing queued behind it, leaves the entry \<open>Steve:container\<close> in the lock map: the map
  holds the promise returned by \<open>prev.then(() => next)\<close> (index 2), the \<open>finally\<close> block
  compares it with \<open>next\<close> (index 1), and the deletion is skipped. The same holds after
  an error.
\<close>
theorem runExclusive_entry_retained:
  "map_option (\<lambda>s. (locks s ''Steve:container'', map phase (calls s)))
     (run [Call (Some ''Steve'') ''container'', Resume 0, Finish 0 (Returned (7::nat))] initial)
     = Some (Some 2, [Done (Returned 7)])
   \<and> map_option (\<lambda>s. (locks s ''Steve:container'', map phase (calls s)))
     (run [Call (Some ''Steve'') ''container'', Resume 0, Finish 0 (Threw ''full'' :: nat outcome)] initial)
     = Some (Some 2, [Done (Threw ''full'')])"
  by (simp add: run_defs)

lemma run_append:
  "run (xs @ ys) s = (case run xs s of None \<Rightarrow> None | Some s' \<Rightarrow> run ys s')"
  by (induction xs arbitrary: s) (auto split: option.splits)

lemma settle_enabled:
  assumes "p < length (heap s)" and "settled (heap s ! p) = Pending"
    and "kind (heap s ! p) = Then a b" and "a < length (heap s)" and "b < length (heap s)"
    and "settled (heap s ! a) = Fulfilled" and "settled (heap s ! b) = Fulfilled"
  shows "settle p s = Some (s\<lparr>heap := fulfil p (heap s)\<rparr>)"
  using assms by (simp add: settle_def fulfil_def)

text \<open>
  When every earlier call with the lock key of call \<open>n\<close> is over, settling the promises
  of the chain in order fulfils \<open>prev\<close> of call \<open>n\<close>.
\<close>

lemma chain_settles:
  assumes w: "wellformed s"
  shows "n < length (calls s)
           \<Longrightarrow> \<forall>m < n. lockKey (calls s ! m) = lockKey (calls s ! n) \<longrightarrow> finished (phase (calls s ! m))
           \<Longrightarrow> \<exists>ps s'. run (map Settle ps) s = Some s' \<and> wellformed s' \<and> calls s' = calls s
                   \<and> locks s' = locks s
                   \<and> settled (heap s' ! prevId (calls s ! n)) = Fulfilled"
proof (induction n rule: less_induct)
  case (less n)
  from wellformedD(1) [OF w] less.prems(1) have pb: "prevId (calls s ! n) < length (heap s)"
    by (simp add: W_bounds_def)
  from wellformedD(9) [OF w] less.prems(1)
  have "(kind (heap s ! prevId (calls s ! n)) = Resolved
         \<and> (\<forall>m < n. lockKey (calls s ! m) \<noteq> lockKey (calls s ! n)))
      \<or> (\<exists>m < n. lockKey (calls s ! m) = lockKey (calls s ! n)
            \<and> kind (heap s ! prevId (calls s ! n))
                = Then (prevId (calls s ! m)) (nextId (calls s ! m))
            \<and> (\<forall>m' < n. lockKey (calls s ! m') = lockKey (calls s ! n) \<longrightarrow> m' \<le> m))"
    by (simp add: W_prev_def)
  then show ?case
  proof
    assume "kind (heap s ! prevId (calls s ! n)) = Resolved
         \<and> (\<forall>m < n. lockKey (calls s ! m) \<noteq> lockKey (calls s ! n))"
    with wellformedD(8) [OF w] pb have "settled (heap s ! prevId (calls s ! n)) = Fulfilled"
      by (simp add: W_resolved_def)
    with w have "run (map Settle []) s = Some s \<and> wellformed s \<and> calls s = calls s \<and> locks s = locks s
                   \<and> settled (heap s ! prevId (calls s ! n)) = Fulfilled"
      by simp
    then show ?thesis by blast
  next
    assume "\<exists>m < n. lockKey (calls s ! m) = lockKey (calls s ! n)
            \<and> kind (heap s ! prevId (calls s ! n))
                = Then (prevId (calls s ! m)) (nextId (calls s ! m))
            \<and> (\<forall>m' < n. lockKey (calls s ! m') = lockKey (calls s ! n) \<longrightarrow> m' \<le> m)"
    then obtain l where l: "l < n" and kl: "lockKey (calls s ! l) = lockKey (calls s ! n)"
      and th: "kind (heap s ! prevId (calls s ! n))
                = Then (prevId (calls s ! l)) (nextId (calls s ! l))"
      by blast
    from l less.prems(1) have lC: "l < length (calls s)" by simp
    from less.prems(2) l kl have dl: "finished (phase (calls s ! l))" by simp
    have "\<forall>m < l. lockKey (calls s ! m) = lockKey (calls s ! l) \<longrightarrow> finished (phase (calls s ! m))"
      using less.prems(2) l kl by simp
    from less.IH [OF l lC this] obtain ps s1 where r1: "run (map Settle ps) s = Some s1"
      and w1: "wellformed s1" and c1: "calls s1 = calls s" and l1: "locks s1 = locks s"
      and f1: "settled (heap s1 ! prevId (calls s ! l)) = Fulfilled"
      by blast
    let ?p = "prevId (calls s ! n)"
    from wellformedD(1) [OF w1] less.prems(1) lC c1
    have pb1: "?p < length (heap s1)" and ab1: "prevId (calls s ! l) < length (heap s1)"
      "nextId (calls s ! l) < length (heap s1)"
      by (simp_all add: W_bounds_def)
    from wellformedD(4) [OF w1] lC c1 dl have fn1: "settled (heap s1 ! nextId (calls s ! l)) = Fulfilled"
      by (simp add: W_next_def)
    from wellformedD(9) [OF w1] less.prems(1) c1 l kl
    obtain l' where l': "l' < n" and kl': "lockKey (calls s ! l') = lockKey (calls s ! n)"
      and th1: "kind (heap s1 ! ?p) = Then (prevId (calls s ! l')) (nextId (calls s ! l'))"
      and mx1: "\<forall>m' < n. lockKey (calls s ! m') = lockKey (calls s ! n) \<longrightarrow> m' \<le> l'"
      unfolding W_prev_def by (metis less_irrefl)
    from wellformedD(6) [OF w1] pb1 th1 have "nextId (calls s ! l') < ?p" "prevId (calls s ! l') < ?p"
      unfolding W_then_def by blast+
    with pb1 have ab1': "prevId (calls s ! l') < length (heap s1)"
      "nextId (calls s ! l') < length (heap s1)"
      by simp_all
    have "l' = l"
    proof -
      from mx1 l kl have "l \<le> l'" by simp
      moreover from \<open>\<exists>m < n. lockKey (calls s ! m) = lockKey (calls s ! n)
            \<and> kind (heap s ! prevId (calls s ! n))
                = Then (prevId (calls s ! m)) (nextId (calls s ! m))
            \<and> (\<forall>m' < n. lockKey (calls s ! m') = lockKey (calls s ! n) \<longrightarrow> m' \<le> m)\<close>
      obtain l2 where "kind (heap s ! ?p) = Then (prevId (calls s ! l2)) (nextId (calls s ! l2))"
        and l2n: "l2 < n"
        and mx: "\<forall>m' < n. lockKey (calls s ! m') = lockKey (calls s ! n) \<longrightarrow> m' \<le> l2"
        by blast
      with th have "nextId (calls s ! l2) = nextId (calls s ! l)" by simp
      with wellformedD(5) [OF w] lC l2n less.prems(1) have "l2 = l"
        by (simp add: W_inj_def)
      with mx l' kl' have "l' \<le> l" by simp
      ultimately show ?thesis by simp
    qed
    with th1 have th1': "kind (heap s1 ! ?p) = Then (prevId (calls s ! l)) (nextId (calls s ! l))"
      by simp
    show ?thesis
    proof (cases "settled (heap s1 ! ?p) = Fulfilled")
      case True
      with r1 w1 c1 l1 show ?thesis by blast
    next
      case False
      from wellformedD(7) [OF w1] pb1 have "\<And>e. settled (heap s1 ! ?p) \<noteq> Rejected e"
        by (simp add: W_norej_def)
      with False have pe: "settled (heap s1 ! ?p) = Pending"
        by (cases "settled (heap s1 ! ?p)") auto
      let ?s2 = "s1\<lparr>heap := fulfil ?p (heap s1)\<rparr>"
      from settle_enabled [OF pb1 pe th1' ab1 f1 fn1]
      have st: "settle ?p s1 = Some ?s2" .
      from wellformed_settle [OF w1 st] have w2: "wellformed ?s2" .
      have "run (map Settle (ps @ [?p])) s = Some ?s2"
        by (simp add: run_append r1 st)
      moreover have "calls ?s2 = calls s" "locks ?s2 = locks s"
        using c1 l1 by simp_all
      moreover have "settled (heap ?s2 ! ?p) = Fulfilled"
        using pb1 by simp
      ultimately show ?thesis using w2 by blast
    qed
  qed
qed

lemma next_can_run:
  assumes r: "run es initial = Some s" and n: "n < length (calls s)"
    and a: "phase (calls s ! n) = AwaitingPrev"
    and d: "\<forall>m < n. lockKey (calls s ! m) = lockKey (calls s ! n) \<longrightarrow> finished (phase (calls s ! m))"
  shows "\<exists>ps s'. run (map Settle ps @ [Resume n]) s = Some s' \<and> phase (calls s' ! n) = Running"
proof -
  from wellformed_reached [OF r] have w: "wellformed s" .
  from chain_settles [OF w n d] obtain ps s1 where r1: "run (map Settle ps) s = Some s1"
    and w1: "wellformed s1" and c1: "calls s1 = calls s"
    and f1: "settled (heap s1 ! prevId (calls s ! n)) = Fulfilled"
    by blast
  from wellformedD(1) [OF w1] n c1 have "prevId (calls s ! n) < length (heap s1)"
    by (simp add: W_bounds_def)
  with n a c1 f1 have "resume n s1 = Some (s1\<lparr>calls := setPhase n Running (calls s1)\<rparr>)"
    by (simp add: resume_def setPhase_def)
  then have "run (map Settle ps @ [Resume n]) s = Some (s1\<lparr>calls := setPhase n Running (calls s1)\<rparr>)"
    by (simp add: run_append r1)
  moreover have "phase (calls (s1\<lparr>calls := setPhase n Running (calls s1)\<rparr>) ! n) = Running"
    using n c1 by simp
  ultimately show ?thesis by blast
qed

text \<open>A call ends with the outcome of its own operation and no other.\<close>

lemma done_step:
  assumes w: "wellformed s" and st: "step e s = Some s'"
    and n: "n < length (calls s')" and d: "phase (calls s' ! n) = Done out"
  shows "e = Finish n out \<or> (n < length (calls s) \<and> phase (calls s ! n) = Done out)"
proof (cases e)
  case (Call u key)
  with st have "\<exists>c0. calls s' = calls s @ [c0] \<and> phase c0 = AwaitingPrev"
    by (auto simp: call_def Let_def split: option.splits)
  then obtain c0 where c: "calls s' = calls s @ [c0]" and p0: "phase c0 = AwaitingPrev"
    by blast
  show ?thesis
  proof (cases "n < length (calls s)")
    case True
    with d c show ?thesis by (simp add: nth_append)
  next
    case False
    with n c have "n = length (calls s)" by simp
    with d c p0 show ?thesis by simp
  qed
next
  case (Resume k)
  with st have r: "resume k s = Some s'" by simp
  note e = resume_eff [OF w r]
  from n d e(1) show ?thesis
    by (cases "n = k") (simp_all add: e(4))
next
  case (Finish k o2)
  with st have r: "finish k o2 s = Some s'" by simp
  note e = finish_eff [OF w r]
  from n d e(1) Finish show ?thesis
    by (cases "n = k") (simp_all add: e(3))
next
  case (Settle p)
  with st settle_eff [OF w, of p s'] n d show ?thesis by auto
qed

lemma done_run:
  assumes "wellformed s" and "run es s = Some s'"
    and "n < length (calls s')" and "phase (calls s' ! n) = Done out"
  shows "Finish n out \<in> set es \<or> (n < length (calls s) \<and> phase (calls s ! n) = Done out)"
  using assms
proof (induction es arbitrary: s)
  case Nil
  then show ?case by simp
next
  case (Cons e es)
  from Cons.prems(2) obtain s1 where s1: "step e s = Some s1" and r: "run es s1 = Some s'"
    by (auto split: option.splits)
  from wellformed_step [OF Cons.prems(1) s1] have w1: "wellformed s1" .
  from Cons.IH [OF w1 r Cons.prems(3,4)]
  show ?case
  proof
    assume "Finish n out \<in> set es"
    then show ?thesis by simp
  next
    assume "n < length (calls s1) \<and> phase (calls s1 ! n) = Done out"
    with done_step [OF Cons.prems(1) s1] show ?thesis by auto
  qed
qed

lemma outcome_own:
  assumes "run es initial = Some s" and "n < length (calls s)" and "phase (calls s ! n) = Done out"
  shows "Finish n out \<in> set es"
  using done_run [OF wellformed_initial assms] by (simp add: initial_def)

text \<open>
  C4. In every state the system reaches: when the operation of a running call throws,
  that call ends with this error, no other call is touched, \<open>next\<close> of the call is
  fulfilled and the lock map is as before; a call that has ended with an outcome got it
  from its own operation; and a waiting call all of whose predecessors under its lock
  key are over, with whatever outcome, an error included, can be resumed after the
  promises of the chain have settled, and then runs.
\<close>
theorem runExclusive_failure_isolated:
  "run es initial = Some s \<longrightarrow>
     (\<forall>n e s'. finish n (Threw e) s = Some s' \<longrightarrow>
         phase (calls s' ! n) = Done (Threw e)
         \<and> length (calls s') = length (calls s)
         \<and> (\<forall>m. m \<noteq> n \<longrightarrow> calls s' ! m = calls s ! m)
         \<and> settled (heap s' ! nextId (calls s ! n)) = Fulfilled
         \<and> locks s' = locks s)
     \<and> (\<forall>n out. n < length (calls s) \<and> phase (calls s ! n) = Done out \<longrightarrow> Finish n out \<in> set es)
     \<and> (\<forall>n. n < length (calls s) \<and> phase (calls s ! n) = AwaitingPrev
             \<and> (\<forall>m < n. lockKey (calls s ! m) = lockKey (calls s ! n)
                          \<longrightarrow> finished (phase (calls s ! m)))
           \<longrightarrow> (\<exists>ps s'. run (map Settle ps @ [Resume n]) s = Some s'
                        \<and> phase (calls s' ! n) = Running))"
proof (intro impI conjI allI)
  assume r: "run es initial = Some s"
  from wellformed_reached [OF r] have w: "wellformed s" .
  show "phase (calls s' ! n) = Done (Threw e)"
    and "length (calls s') = length (calls s)"
    and "m \<noteq> n \<Longrightarrow> calls s' ! m = calls s ! m"
    and "settled (heap s' ! nextId (calls s ! n)) = Fulfilled"
    and "locks s' = locks s"
    if f: "finish n (Threw e) s = Some s'" for n e s' m
  proof -
    note x = finish_eff [OF w f]
    from wellformedD(1) [OF w] x(1) have b: "nextId (calls s ! n) < length (heap s)"
      by (simp add: W_bounds_def)
    from x(1) show "phase (calls s' ! n) = Done (Threw e)"
      by (simp add: x(3))
    show "length (calls s') = length (calls s)"
      by (simp add: x(3))
    show "calls s' ! m = calls s ! m" if "m \<noteq> n"
      using that by (simp add: x(3) setPhase_def)
    from b show "settled (heap s' ! nextId (calls s ! n)) = Fulfilled"
      by (simp add: x(3))
    show "locks s' = locks s"
      by (simp add: x(3))
  qed
  show "Finish n out \<in> set es"
    if "n < length (calls s) \<and> phase (calls s ! n) = Done out" for n out
    using outcome_own [OF r] that by blast
  show "\<exists>ps s'. run (map Settle ps @ [Resume n]) s = Some s' \<and> phase (calls s' ! n) = Running"
    if "n < length (calls s) \<and> phase (calls s ! n) = AwaitingPrev
             \<and> (\<forall>m < n. lockKey (calls s ! m) = lockKey (calls s ! n)
                          \<longrightarrow> finished (phase (calls s ! m)))" for n
    using next_can_run [OF r, of n] that by blast
qed

lemma failing_run:
  "\<exists>(s0 :: nat mutex) s.
     run [Call (Some ''Steve'') ''container'', Call (Some ''Steve'') ''container'', Resume 0] initial
       = Some s0
     \<and> finish 0 (Threw ''full'') s0 = Some s
     \<and> length (calls s0) = 2 \<and> phase (calls s0 ! 1) = AwaitingPrev"
  by (simp add: run_defs)

theorem runExclusive_failure_isolated_witness:
  "\<exists>s :: nat mutex.
     run [Call (Some ''Steve'') ''container'', Call (Some ''Steve'') ''container'',
          Resume 0, Finish 0 (Threw ''full'')] initial = Some s
     \<and> phase (calls s ! 0) = Done (Threw ''full'')
     \<and> phase (calls s ! 1) = AwaitingPrev
     \<and> Finish 0 (Threw ''full'')
         \<in> set [Call (Some ''Steve'') ''container'', Call (Some ''Steve'') ''container'',
                 Resume 0, Finish 0 (Threw ''full'') :: nat event]
     \<and> (\<exists>ps s'. run (map Settle ps @ [Resume 1]) s = Some s' \<and> phase (calls s' ! 1) = Running)"
proof -
  let ?pre = "[Call (Some ''Steve'') ''container'', Call (Some ''Steve'') ''container'',
          Resume 0] :: nat event list"
  let ?es = "?pre @ [Finish 0 (Threw ''full'')]"
  from failing_run obtain s0 s where r0: "run ?pre initial = Some s0"
    and f: "finish 0 (Threw ''full'') s0 = Some s"
    and l0: "length (calls s0) = 2" and p0: "phase (calls s0 ! 1) = AwaitingPrev"
    by blast
  from runExclusive_failure_isolated [of ?pre s0, THEN mp, OF r0, THEN conjunct1,
      rule_format, OF f]
  have d: "phase (calls s ! 0) = Done (Threw ''full'')" and l: "length (calls s) = length (calls s0)"
    and o: "calls s ! 1 = calls s0 ! 1"
    by simp_all
  have r: "run ?es initial = Some s"
  proof -
    have "run ?es initial = (case run ?pre initial of None \<Rightarrow> None
                             | Some s' \<Rightarrow> run [Finish 0 (Threw ''full'')] s')"
      by (rule run_append)
    also have "\<dots> = run [Finish 0 (Threw ''full'')] s0"
      by (simp only: r0 option.case)
    also have "\<dots> = Some s"
      by (simp add: f)
    finally show ?thesis .
  qed
  note main = runExclusive_failure_isolated [of ?es s, THEN mp, OF r]
  have "0 < length (calls s) \<and> phase (calls s ! 0) = Done (Threw ''full'')"
    using d l l0 by simp
  from main [THEN conjunct2, THEN conjunct1, rule_format, OF this]
  have own: "Finish 0 (Threw ''full'') \<in> set ?es" .
  have w: "1 < length (calls s) \<and> phase (calls s ! 1) = AwaitingPrev
             \<and> (\<forall>m < 1. lockKey (calls s ! m) = lockKey (calls s ! 1)
                          \<longrightarrow> finished (phase (calls s ! m)))"
    using d l l0 o p0 by simp
  from main [THEN conjunct2, THEN conjunct2, rule_format, OF w]
  have nx: "\<exists>ps s'. run (map Settle ps @ [Resume 1]) s = Some s' \<and> phase (calls s' ! 1) = Running" .
  have r': "run [Call (Some ''Steve'') ''container'', Call (Some ''Steve'') ''container'',
          Resume 0, Finish 0 (Threw ''full'')] initial = Some s"
    using r by simp
  have p1: "phase (calls s ! 1) = AwaitingPrev"
    using o p0 by simp
  from r' d p1 nx show ?thesis
    by (intro exI [of _ s] conjI) simp_all
qed

text \<open>
  C9. The lock key is the supplied key behind the username and a colon, with \<open>bot\<close> for
  an absent or empty username. Two calls with the same supplied key have the same lock
  key exactly when these prefixes are equal. When they differ, the calls have distinct
  entries and both can be running at once; when they are equal, as for two bots without
  a username, the second call chains on the promise the first stored and cannot be
  resumed while the first runs.
\<close>
theorem lockKey_prefixed_by_username:
  "lockKeyOf u1 k = effectiveName u1 @ '':'' @ k
   \<and> (lockKeyOf u1 k = lockKeyOf u2 k \<longleftrightarrow> effectiveName u1 = effectiveName u2)
   \<and> (effectiveName u1 \<noteq> effectiveName u2 \<longrightarrow>
        (\<exists>s :: 'a mutex. run [Call u1 k, Call u2 k, Resume 0, Resume 1] initial = Some s
            \<and> lockKey (calls s ! 0) \<noteq> lockKey (calls s ! 1)
            \<and> phase (calls s ! 0) = Running \<and> phase (calls s ! 1) = Running))
   \<and> (effectiveName u1 = effectiveName u2 \<longrightarrow>
        (\<exists>s :: 'a mutex. run [Call u1 k, Call u2 k] initial = Some s
            \<and> lockKey (calls s ! 0) = lockKey (calls s ! 1)
            \<and> kind (heap s ! prevId (calls s ! 1))
                = Then (prevId (calls s ! 0)) (nextId (calls s ! 0)))
        \<and> run [Call u1 k, Call u2 k, Resume 0, Resume 1] (initial :: 'a mutex) = None)"
proof (intro conjI impI)
  show "lockKeyOf u1 k = effectiveName u1 @ '':'' @ k"
    by (rule lockKeyOf_eq)
  show "(lockKeyOf u1 k = lockKeyOf u2 k) = (effectiveName u1 = effectiveName u2)"
    by (rule lockKeyOf_same_key)
next
  assume "effectiveName u1 \<noteq> effectiveName u2"
  then have d: "lockKeyOf u1 k \<noteq> lockKeyOf u2 k"
    by (simp add: lockKeyOf_same_key)
  have a: "run [Call u1 k, Call u2 k, Resume 0, Resume 1] (initial :: 'a mutex)
             = (case run [Call u1 k, Call u2 k] initial of None \<Rightarrow> None
                | Some s \<Rightarrow> run [Resume 0, Resume 1] s)"
    by simp
  show "\<exists>s :: 'a mutex. run [Call u1 k, Call u2 k, Resume 0, Resume 1] initial = Some s
            \<and> lockKey (calls s ! 0) \<noteq> lockKey (calls s ! 1)
            \<and> phase (calls s ! 0) = Running \<and> phase (calls s ! 1) = Running"
    unfolding a two_calls using d by (simp add: resume_def)
next
  assume "effectiveName u1 = effectiveName u2"
  then have e: "lockKeyOf u1 k = lockKeyOf u2 k"
    by (simp add: lockKeyOf_same_key)
  show "\<exists>s :: 'a mutex. run [Call u1 k, Call u2 k] initial = Some s
            \<and> lockKey (calls s ! 0) = lockKey (calls s ! 1)
            \<and> kind (heap s ! prevId (calls s ! 1))
                = Then (prevId (calls s ! 0)) (nextId (calls s ! 0))"
    unfolding two_calls using e by simp
  show "run [Call u1 k, Call u2 k, Resume 0, Resume 1] (initial :: 'a mutex) = None"
    by (rule serialized_same(1) [OF e])
qed

theorem lockKey_prefixed_by_username_witness:
  "lockKeyOf (Some ''Steve'') ''container'' \<noteq> lockKeyOf (Some ''Alex'') ''container''
   \<and> (\<exists>s :: nat mutex.
         run [Call (Some ''Steve'') ''container'', Call (Some ''Alex'') ''container'',
              Resume 0, Resume 1] initial = Some s
         \<and> phase (calls s ! 0) = Running \<and> phase (calls s ! 1) = Running)
   \<and> lockKeyOf None ''container'' = lockKeyOf (Some []) ''container''
   \<and> run [Call None ''container'', Call (Some []) ''container'', Resume 0, Resume 1]
         (initial :: nat mutex) = None"
proof -
  have d: "effectiveName (Some ''Steve'') \<noteq> effectiveName (Some ''Alex'')"
    and e: "effectiveName None = effectiveName (Some [])"
    by (simp_all add: effectiveName_def)
  from lockKey_prefixed_by_username [of "Some ''Steve''" "''container''" "Some ''Alex''",
      where ?'a = nat] d
  have a: "lockKeyOf (Some ''Steve'') ''container'' \<noteq> lockKeyOf (Some ''Alex'') ''container''"
    and b: "\<exists>s :: nat mutex.
         run [Call (Some ''Steve'') ''container'', Call (Some ''Alex'') ''container'',
              Resume 0, Resume 1] initial = Some s
         \<and> phase (calls s ! 0) = Running \<and> phase (calls s ! 1) = Running"
    by blast+
  from lockKey_prefixed_by_username [of None "''container''" "Some []", where ?'a = nat] e
  have c: "lockKeyOf None ''container'' = lockKeyOf (Some []) ''container''"
    and f: "run [Call None ''container'', Call (Some []) ''container'', Resume 0, Resume 1]
         (initial :: nat mutex) = None"
    by blast+
  from a b c f show ?thesis by blast
qed

theorem lockKey_bot_collision_counterexample:
  "Some ''bot'' \<noteq> (None :: string option)
   \<and> lockKeyOf (Some ''bot'') ''container'' = lockKeyOf None ''container''
   \<and> run [Call (Some ''bot'') ''container'', Call None ''container'', Resume 0, Resume 1]
         (initial :: nat mutex) = None"
  by (simp add: run_defs)

end
